theory Spec2Isabelle
  imports Main "HOL-Library.Sublist"
begin

section \<open>Text as sequences of code points\<close>

text \<open>
  A Python \<open>str\<close> is a sequence of Unicode code points. The texts handled here are
  Korean, so a character is modelled by its code point (a natural number) and a text
  by the list of its code points.
\<close>

type_synonym ustr = "nat list"

text \<open>The noise marker \<open>[\<close> U+C74C U+C545 \<open>]\<close>, the full stop and the space.\<close>

definition marker :: ustr where
  "marker = [0x5B, 0xC74C, 0xC545, 0x5D]"

definition dot :: nat where
  "dot = 0x2E"

definition sep :: ustr where
  "sep = [0x2E, 0x20]"

text \<open>
  Whitespace as \<open>str.strip()\<close> and the pattern \<open>\s\<close> of \<open>re\<close> (on \<open>str\<close>) see it:
  the code points for which \<open>str.isspace()\<close> holds.
\<close>

definition is_space :: "nat \<Rightarrow> bool" where
  "is_space c \<longleftrightarrow>
     (0x09 \<le> c \<and> c \<le> 0x0D) \<or> (0x1C \<le> c \<and> c \<le> 0x20) \<or> c = 0x85 \<or> c = 0xA0 \<or>
     c = 0x1680 \<or> (0x2000 \<le> c \<and> c \<le> 0x200A) \<or> c = 0x2028 \<or> c = 0x2029 \<or>
     c = 0x202F \<or> c = 0x205F \<or> c = 0x3000"

section \<open>The library operations used by the script refiner\<close>

text \<open>
  \<open>re.sub(r'\[..\]', '', text)\<close>: one pass from left to right that deletes every
  non-overlapping occurrence of the marker; the scan resumes after a deleted occurrence.
\<close>

fun remove_marker :: "ustr \<Rightarrow> ustr" where
  "remove_marker [] = []"
| "remove_marker (c # cs) =
     (if prefix marker (c # cs) then remove_marker (drop (length marker - 1) cs)
      else c # remove_marker cs)"

text \<open>
  \<open>text.split(s)\<close> for a non-empty separator \<open>s\<close>: the pieces between the
  non-overlapping occurrences of \<open>s\<close>, found from left to right. The empty text gives
  one empty piece.
\<close>

fun split_on :: "ustr \<Rightarrow> ustr \<Rightarrow> ustr list" where
  "split_on s [] = [[]]"
| "split_on s (c # cs) =
     (if prefix s (c # cs) then [] # split_on s (drop (length s - 1) cs)
      else (case split_on s cs of
              [] \<Rightarrow> [[c]]
            | p # ps \<Rightarrow> (c # p) # ps))"

text \<open>\<open>s.join(xs)\<close>.\<close>

fun join :: "ustr \<Rightarrow> ustr list \<Rightarrow> ustr" where
  "join s [] = []"
| "join s [x] = x"
| "join s (x # y # ys) = x @ s @ join s (y # ys)"

text \<open>\<open>re.sub(r'\.+', '.', text)\<close>: every maximal run of full stops becomes one.\<close>

function collapse_dots :: "ustr \<Rightarrow> ustr" where
  "collapse_dots [] = []"
| "collapse_dots (c # cs) =
     (if c = dot then dot # collapse_dots (dropWhile (\<lambda>x. x = dot) cs)
      else c # collapse_dots cs)"
  by pat_completeness auto
termination
  by (relation "measure length") (auto simp: length_dropWhile_le less_Suc_eq_le)

text \<open>\<open>text.strip()\<close>: whitespace removed at both ends.\<close>

definition strip :: "ustr \<Rightarrow> ustr" where
  "strip t = rev (dropWhile is_space (rev (dropWhile is_space t)))"

section \<open>The script refiner\<close>

text \<open>
  The loop of \<open>refine_script\<close> over the candidate sentences: a sentence is appended to
  \<open>unique_sentences\<close> when it is non-empty and not yet in the list.
\<close>

fun unique_loop :: "ustr list \<Rightarrow> ustr list \<Rightarrow> ustr list" where
  "unique_loop acc [] = acc"
| "unique_loop acc (s # ss) =
     (if s \<noteq> [] \<and> s \<notin> set acc then unique_loop (acc @ [s]) ss
      else unique_loop acc ss)"

definition candidates :: "ustr \<Rightarrow> ustr list" where
  "candidates t = split_on sep (remove_marker t)"

definition unique_sentences :: "ustr \<Rightarrow> ustr list" where
  "unique_sentences t = unique_loop [] (candidates t)"

text \<open>
  What the deduplication is said to compute: the first occurrence of every element, in
  the order of first occurrence. Element \<open>i\<close> stays when no earlier element equals it.
\<close>

definition first_occurrences :: "'a list \<Rightarrow> 'a list" where
  "first_occurrences cs =
     map (\<lambda>i. cs ! i) (filter (\<lambda>i. cs ! i \<notin> set (take i cs)) [0..<length cs])"

definition refine_script :: "ustr \<Rightarrow> ustr" where
  "refine_script t = strip (collapse_dots (join sep (unique_sentences t)))"

section \<open>The paragraph segmenter\<close>

definition is_terminator :: "nat \<Rightarrow> bool" where
  "is_terminator c \<longleftrightarrow> c = 0x2E \<or> c = 0x21 \<or> c = 0x3F"

text \<open>
  \<open>re.split(r'(?<=[.!?])\s+', text)\<close>: a match is a maximal run of whitespace that
  starts right after a terminator; the text is cut at every match, found from left to
  right, and the whitespace of the match is dropped. The flag says whether the character
  before the current position is a terminator (at the start of the text there is none).
\<close>

function split_sentences_from :: "bool \<Rightarrow> ustr \<Rightarrow> ustr list" where
  "split_sentences_from after_term [] = [[]]"
| "split_sentences_from after_term (c # cs) =
     (if after_term \<and> is_space c
      then [] # split_sentences_from False (dropWhile is_space cs)
      else (case split_sentences_from (is_terminator c) cs of
              [] \<Rightarrow> [[c]]
            | p # ps \<Rightarrow> (c # p) # ps))"
  by pat_completeness auto
termination
  by (relation "measure (\<lambda>(b, t). length t)") (auto simp: length_dropWhile_le less_Suc_eq_le)

definition split_sentences :: "ustr \<Rightarrow> ustr list" where
  "split_sentences t = split_sentences_from False t"

text \<open>The discourse keywords, in the order of the source.\<close>

definition paragraph_keywords :: "ustr list" where
  "paragraph_keywords =
     [[0xADF8, 0xB9AC, 0xACE0],
      [0xB530, 0xB77C, 0xC11C],
      [0xADF8, 0xB7EC, 0xB098],
      [0xADF8, 0xB798, 0xC11C],
      [0xACB0, 0xB860, 0xC801, 0xC73C, 0xB85C]]"

text \<open>
  \<open>any(keyword in sentence.lower() for keyword in [...])\<close>. The lower-casing of
  \<open>str.lower()\<close> is a table of the Unicode database, not code of this program: it is a
  parameter \<open>lower\<close> of the model.
\<close>

definition has_keyword :: "(ustr \<Rightarrow> ustr) \<Rightarrow> ustr \<Rightarrow> bool" where
  "has_keyword lower s = list_ex (\<lambda>k. sublist k (lower s)) paragraph_keywords"

text \<open>
  The loop of \<open>split_into_paragraphs\<close>. The state is the list of finished paragraphs
  and the buffer \<open>current_paragraph\<close>; a sentence that is blank after \<open>strip()\<close> is
  skipped.
\<close>

fun paragraph_loop ::
  "(ustr \<Rightarrow> ustr) \<Rightarrow> ustr list \<Rightarrow> ustr list \<Rightarrow> ustr list \<Rightarrow> ustr list \<times> ustr list" where
  "paragraph_loop lower paragraphs current [] = (paragraphs, current)"
| "paragraph_loop lower paragraphs current (s # ss) =
     (if strip s \<noteq> [] then
        (if length (current @ [s]) \<ge> 5 \<or> has_keyword lower s
         then paragraph_loop lower (paragraphs @ [join [0x20] (current @ [s])]) [] ss
         else paragraph_loop lower paragraphs (current @ [s]) ss)
      else paragraph_loop lower paragraphs current ss)"

definition split_into_paragraphs :: "(ustr \<Rightarrow> ustr) \<Rightarrow> ustr \<Rightarrow> ustr list" where
  "split_into_paragraphs lower text =
     (if text = [] \<or> length (strip text) < 30 then []
      else (case paragraph_loop lower [] [] (split_sentences (remove_marker text)) of
              (paragraphs, current) \<Rightarrow>
                if current \<noteq> [] then paragraphs @ [join [0x20] current] else paragraphs))"

text \<open>
  The same loop with the buffers kept as lists of sentences instead of being joined:
  the sentences of each paragraph, used to state what a paragraph contains.
\<close>

fun group_loop ::
  "(ustr \<Rightarrow> ustr) \<Rightarrow> ustr list list \<Rightarrow> ustr list \<Rightarrow> ustr list \<Rightarrow> ustr list list \<times> ustr list" where
  "group_loop lower groups current [] = (groups, current)"
| "group_loop lower groups current (s # ss) =
     (if strip s \<noteq> [] then
        (if length (current @ [s]) \<ge> 5 \<or> has_keyword lower s
         then group_loop lower (groups @ [current @ [s]]) [] ss
         else group_loop lower groups (current @ [s]) ss)
      else group_loop lower groups current ss)"

definition paragraph_sentences :: "(ustr \<Rightarrow> ustr) \<Rightarrow> ustr \<Rightarrow> ustr list list" where
  "paragraph_sentences lower text =
     (if text = [] \<or> length (strip text) < 30 then []
      else (case group_loop lower [] [] (split_sentences (remove_marker text)) of
              (groups, current) \<Rightarrow>
                if current \<noteq> [] then groups @ [current] else groups))"

text \<open>
  The invariant of the loop. A finished group has between 1 and 5 sentences, none of them
  blank, and no sentence before its last one contains a keyword. The buffer has fewer
  than 5 sentences, none of them blank and none with a keyword.
\<close>

definition closed_group :: "(ustr \<Rightarrow> ustr) \<Rightarrow> ustr list \<Rightarrow> bool" where
  "closed_group lower g \<longleftrightarrow>
     1 \<le> length g \<and> length g \<le> 5 \<and> (\<forall>s\<in>set g. strip s \<noteq> []) \<and>
     (\<forall>s\<in>set (butlast g). \<not> has_keyword lower s)"

definition open_buffer :: "(ustr \<Rightarrow> ustr) \<Rightarrow> ustr list \<Rightarrow> bool" where
  "open_buffer lower cur \<longleftrightarrow>
     length cur < 5 \<and> (\<forall>s\<in>set cur. strip s \<noteq> [] \<and> \<not> has_keyword lower s)"

section \<open>The language detector\<close>

text \<open>
  The four character sets: \<open>range(0xAC00, 0xD7A4)\<close>, \<open>range(0x3040, 0x30FF)\<close>,
  \<open>range(0x4E00, 0x9FFF)\<close> (the upper end of a \<open>range\<close> is excluded) and the 52 ASCII
  letters.
\<close>

definition korean_chars :: "nat \<Rightarrow> bool" where
  "korean_chars c \<longleftrightarrow> 0xAC00 \<le> c \<and> c < 0xD7A4"

definition japanese_chars :: "nat \<Rightarrow> bool" where
  "japanese_chars c \<longleftrightarrow> 0x3040 \<le> c \<and> c < 0x30FF"

definition chinese_chars :: "nat \<Rightarrow> bool" where
  "chinese_chars c \<longleftrightarrow> 0x4E00 \<le> c \<and> c < 0x9FFF"

definition english_chars :: "nat \<Rightarrow> bool" where
  "english_chars c \<longleftrightarrow> (0x61 \<le> c \<and> c \<le> 0x7A) \<or> (0x41 \<le> c \<and> c \<le> 0x5A)"

text \<open>\<open>sum(1 for c in text if c in chars)\<close>.\<close>

definition count_in :: "(nat \<Rightarrow> bool) \<Rightarrow> ustr \<Rightarrow> nat" where
  "count_in chars text = length (filter chars text)"

text \<open>
  The dictionary \<open>counts\<close>, as the list of its items in insertion order, which is the
  order \<open>max\<close> iterates over.
\<close>

definition counts :: "ustr \<Rightarrow> (string \<times> nat) list" where
  "counts text =
     [(''ko'', count_in korean_chars text),
      (''ja'', count_in japanese_chars text),
      (''zh'', count_in chinese_chars text),
      (''en'', count_in english_chars text)]"

text \<open>
  \<open>max(counts, key=counts.get)\<close>: the first item is the candidate, and a later item
  replaces it only when its count is strictly greater. On an empty dictionary \<open>max\<close>
  raises \<open>ValueError\<close>.
\<close>

fun max_from :: "string \<times> nat \<Rightarrow> (string \<times> nat) list \<Rightarrow> string \<times> nat" where
  "max_from best [] = best"
| "max_from best (kv # kvs) = max_from (if snd kv > snd best then kv else best) kvs"

definition max_by_count :: "(string \<times> nat) list \<Rightarrow> (string \<times> nat) option" where
  "max_by_count kvs = (case kvs of [] \<Rightarrow> None | kv # rest \<Rightarrow> Some (max_from kv rest))"

text \<open>
  The comparison \<open>counts[max_lang] < len(text) * 0.05\<close> is between an integer and a
  double. The product converts the length to a double and multiplies it by the double
  nearest to \<open>0.05\<close>, which is \<open>3602879701896397 / 2^56\<close>; each of the two steps rounds to
  53 significant bits, to nearest, ties to even. The comparison of the integer with the
  resulting double is exact. All of it is written out on natural numbers, the product
  being kept as a multiple of \<open>2^-56\<close>.
\<close>

fun bitlen :: "nat \<Rightarrow> nat" where
  "bitlen n = (if n = 0 then 0 else Suc (bitlen (n div 2)))"

definition round53 :: "nat \<Rightarrow> nat" where
  "round53 a =
     (if bitlen a \<le> 53 then a
      else (let d = bitlen a - 53; q = a div 2 ^ d; r = a mod 2 ^ d; h = 2 ^ (d - 1)
            in (if r > h \<or> (r = h \<and> odd q) then q + 1 else q) * 2 ^ d))"

definition double_0_05 :: nat where
  "double_0_05 = 3602879701896397"

definition below_5_percent :: "nat \<Rightarrow> nat \<Rightarrow> bool" where
  "below_5_percent c n \<longleftrightarrow> c * 2 ^ 56 < round53 (round53 n * double_0_05)"

text \<open>\<open>detect_language\<close>; \<open>None\<close> stands for an exception.\<close>

definition detect_language :: "ustr \<Rightarrow> string option" where
  "detect_language text =
     (case max_by_count (counts text) of
        None \<Rightarrow> None
      | Some (max_lang, c) \<Rightarrow>
          if below_5_percent c (length text) then Some ''en'' else Some max_lang)"

text \<open>
  The selection as it is described: the language with the largest count, the earliest
  of \<open>ko, ja, zh, en\<close> among equals, and \<open>en\<close> when that count is below 5 percent
  of the length.
\<close>

definition winner :: "nat \<Rightarrow> nat \<Rightarrow> nat \<Rightarrow> nat \<Rightarrow> string \<times> nat" where
  "winner ko ja zh en =
     (if ko \<ge> ja \<and> ko \<ge> zh \<and> ko \<ge> en then (''ko'', ko)
      else if ja \<ge> zh \<and> ja \<ge> en then (''ja'', ja)
      else if zh \<ge> en then (''zh'', zh)
      else (''en'', en))"

text \<open>
  The four counts by Unicode block: the Hangul syllables U+AC00 to U+D7A3, Hiragana and
  Katakana U+3040 to U+30FF, the CJK Unified Ideographs U+4E00 to U+9FFF, and the ASCII
  letters; in the order \<open>ko, ja, zh, en\<close>.
\<close>

definition class_counts :: "ustr \<Rightarrow> (string \<times> nat) list" where
  "class_counts t =
     [(''ko'', length (filter (\<lambda>c. 0xAC00 \<le> c \<and> c \<le> 0xD7A3) t)),
      (''ja'', length (filter (\<lambda>c. 0x3040 \<le> c \<and> c \<le> 0x30FF) t)),
      (''zh'', length (filter (\<lambda>c. 0x4E00 \<le> c \<and> c \<le> 0x9FFF) t)),
      (''en'', length (filter (\<lambda>c. (0x41 \<le> c \<and> c \<le> 0x5A) \<or> (0x61 \<le> c \<and> c \<le> 0x7A)) t))]"

section \<open>The time format\<close>

text \<open>
  \<open>format_time\<close> takes a float. A finite double that is not negative is a whole multiple
  of \<open>2^-1074\<close>, the smallest positive double; the natural number \<open>n\<close> stands for the
  double \<open>n * 2^-1074\<close>, so that \<open>1.0\<close> is \<open>2^1074\<close>. The infinities and NaN, on which
  \<open>int()\<close> raises, are not values of the model.
\<close>

definition one_double :: nat where
  "one_double = 2 ^ 1074"

text \<open>
  The quotient \<open>a / w\<close> of a double by a whole number, rounded to a double: to 53
  significant bits, to nearest, ties to even (\<open>round53\<close> is the same rounding of a value
  that is given exactly).
\<close>

definition round53_div :: "nat \<Rightarrow> nat \<Rightarrow> nat" where
  "round53_div a w =
     (let d = bitlen (a div w) - 53; q = a div (w * 2 ^ d); r = a mod (w * 2 ^ d)
      in (if 2 * r > w * 2 ^ d \<or> (2 * r = w * 2 ^ d \<and> odd q) then q + 1 else q) * 2 ^ d)"

text \<open>
  \<open>v % w\<close> for a double \<open>v\<close> and a positive whole number \<open>w\<close>: the C function
  \<open>fmod\<close>, which is exact.
\<close>

definition float_mod :: "nat \<Rightarrow> nat \<Rightarrow> nat" where
  "float_mod v w = v mod (w * one_double)"

text \<open>
  \<open>v // w\<close> on doubles, as CPython computes it: \<open>mod = fmod(v, w)\<close>, then
  \<open>div = (v - mod) / w\<close> with the subtraction and the division each rounded; the result
  is 0 when \<open>div\<close> is 0, and otherwise \<open>floor(div)\<close>, plus 1 when \<open>div - floor(div)\<close> is
  greater than 0.5.
\<close>

definition float_floordiv :: "nat \<Rightarrow> nat \<Rightarrow> nat" where
  "float_floordiv v w =
     (let md = v mod (w * one_double);
          dv = round53_div (round53 (v - md)) w
      in if dv = 0 then 0
         else (let floordiv = (dv div one_double) * one_double
               in if 2 * (dv - floordiv) > one_double then round53 (floordiv + one_double)
                  else floordiv))"

text \<open>\<open>int(x)\<close> of a double that is not negative: its whole part.\<close>

definition py_int :: "nat \<Rightarrow> nat" where
  "py_int x = x div one_double"

text \<open>
  The decimal digits of a natural number, as \<open>str\<close> gives them, and the format
  \<open>02d\<close>: zeros on the left up to two characters.
\<close>

function dec :: "nat \<Rightarrow> string" where
  "dec n =
     (if n < 10 then [''0123456789'' ! n] else dec (n div 10) @ [''0123456789'' ! (n mod 10)])"
  by pat_completeness auto
termination
  by (relation "measure (\<lambda>n. n)") auto

declare dec.simps [simp del]

definition pad2 :: "nat \<Rightarrow> string" where
  "pad2 n = replicate (2 - length (dec n)) (CHR ''0'') @ dec n"

definition format_time :: "nat \<Rightarrow> string" where
  "format_time seconds =
     (let hours = py_int (float_floordiv seconds 3600);
          minutes = py_int (float_floordiv (float_mod seconds 3600) 60);
          secs = py_int (float_mod seconds 60)
      in pad2 hours @ '':'' @ pad2 minutes @ '':'' @ pad2 secs)"

text \<open>
  A field of the result as it is described: at least two characters, all of them decimal
  digits, with a zero in front only to reach two characters; and the number it denotes.
\<close>

definition is_digit :: "char \<Rightarrow> bool" where
  "is_digit c \<longleftrightarrow> 48 \<le> (of_char c :: nat) \<and> (of_char c :: nat) \<le> 57"

definition dec_value :: "string \<Rightarrow> nat" where
  "dec_value f = foldl (\<lambda>a c. 10 * a + (of_char c - 48)) 0 f"

definition time_field :: "string \<Rightarrow> bool" where
  "time_field f \<longleftrightarrow>
     2 \<le> length f \<and> list_all is_digit f \<and> (length f = 2 \<or> hd f \<noteq> CHR ''0'')"

section \<open>Example texts\<close>

text \<open>
  A text of nine two-letter sentences \<open>Aa.\<close> to \<open>Ii.\<close>, separated by single spaces;
  the second sentence is \<open>Bb\<close>, a space, the keyword U+ADF8 U+B9AC U+ACE0 and a full
  stop. The sentences grouped as the segmenter groups them.
\<close>

abbreviation keyword_sentence :: ustr where
  "keyword_sentence \<equiv> [0x42, 0x62, 0x20, 0xADF8, 0xB9AC, 0xACE0, 0x2E]"

abbreviation nine_sentences :: ustr where
  "nine_sentences \<equiv>
     [0x41, 0x61, 0x2E, 0x20, 0x42, 0x62, 0x20, 0xADF8, 0xB9AC, 0xACE0, 0x2E, 0x20,
      0x43, 0x63, 0x2E, 0x20, 0x44, 0x64, 0x2E, 0x20, 0x45, 0x65, 0x2E, 0x20,
      0x46, 0x66, 0x2E, 0x20, 0x47, 0x67, 0x2E, 0x20, 0x48, 0x68, 0x2E, 0x20,
      0x49, 0x69, 0x2E]"

abbreviation nine_sentences_groups :: "ustr list list" where
  "nine_sentences_groups \<equiv>
     [[[0x41, 0x61, 0x2E], keyword_sentence],
      [[0x43, 0x63, 0x2E], [0x44, 0x64, 0x2E], [0x45, 0x65, 0x2E], [0x46, 0x66, 0x2E],
       [0x47, 0x67, 0x2E]],
      [[0x48, 0x68, 0x2E], [0x49, 0x69, 0x2E]]]"

section \<open>Evaluation of the definitions\<close>

declare bitlen.simps [simp del]

lemmas refine_eval =
  refine_script_def unique_sentences_def candidates_def sep_def marker_def strip_def dot_def
  is_space_def

lemmas detect_eval =
  detect_language_def max_by_count_def counts_def count_in_def below_5_percent_def round53_def
  double_0_05_def korean_chars_def japanese_chars_def chinese_chars_def english_chars_def
  bitlen.simps Let_def

section \<open>Deduplication in the script refiner\<close>

lemma unique_loop_snoc:
  "unique_loop acc (cs @ [x]) =
     (if x \<noteq> [] \<and> x \<notin> set (unique_loop acc cs) then unique_loop acc cs @ [x]
      else unique_loop acc cs)"
  by (induction cs arbitrary: acc) auto

lemma set_unique_loop: "set (unique_loop acc cs) = set acc \<union> (set cs - {[]})"
  by (induction cs arbitrary: acc) auto

lemma first_occurrences_snoc:
  "first_occurrences (cs @ [x]) = first_occurrences cs @ (if x \<in> set cs then [] else [x])"
proof -
  have a: "filter (\<lambda>i. (cs @ [x]) ! i \<notin> set (take i (cs @ [x]))) [0..<length cs]
        = filter (\<lambda>i. cs ! i \<notin> set (take i cs)) [0..<length cs]"
    by (rule filter_cong) (auto simp: nth_append)
  have b: "map (\<lambda>i. (cs @ [x]) ! i) (filter (\<lambda>i. cs ! i \<notin> set (take i cs)) [0..<length cs])
        = map (\<lambda>i. cs ! i) (filter (\<lambda>i. cs ! i \<notin> set (take i cs)) [0..<length cs])"
    by (rule map_cong) (auto simp: nth_append)
  have "first_occurrences (cs @ [x]) =
      map (\<lambda>i. (cs @ [x]) ! i)
        (filter (\<lambda>i. (cs @ [x]) ! i \<notin> set (take i (cs @ [x]))) ([0..<length cs] @ [length cs]))"
    by (simp add: first_occurrences_def)
  also have "\<dots> = map (\<lambda>i. (cs @ [x]) ! i)
        (filter (\<lambda>i. cs ! i \<notin> set (take i cs)) [0..<length cs])
        @ (if x \<in> set cs then [] else [x])"
    unfolding filter_append map_append a by simp
  finally show ?thesis
    unfolding b first_occurrences_def .
qed

lemma unique_loop_first_occurrences:
  "unique_loop [] cs = first_occurrences (filter (\<lambda>s. s \<noteq> []) cs)"
proof (induction cs rule: rev_induct)
  case Nil
  show ?case by (simp add: first_occurrences_def)
next
  case (snoc x cs)
  have s: "set (first_occurrences (filter (\<lambda>s. s \<noteq> []) cs)) = set cs - {[]}"
    using set_unique_loop [of "[]" cs] snoc.IH by simp
  show ?case
    by (auto simp: unique_loop_snoc first_occurrences_snoc snoc.IH s)
qed

text \<open>
  C4, as stated, fails. On the text \<open>". A"\<close> the candidates are the empty sentence and
  \<open>"A"\<close>; the first occurrences of the candidates are both of them, but the loop keeps
  only \<open>"A"\<close>: the first candidate, being empty, is dropped.
\<close>

theorem kept_first_candidate_counterexample:
  "candidates [0x2E, 0x20, 0x41] = [[], [0x41]] \<and>
   unique_sentences [0x2E, 0x20, 0x41] = [[0x41]] \<and>
   unique_sentences [0x2E, 0x20, 0x41] \<noteq> first_occurrences (candidates [0x2E, 0x20, 0x41]) \<and>
   hd (candidates [0x2E, 0x20, 0x41]) \<notin> set (unique_sentences [0x2E, 0x20, 0x41])"
  by (simp add: refine_eval first_occurrences_def upt_rec)

text \<open>
  C4, amended: after the marker removal and the split on \<open>". "\<close>, the kept sequence is
  exactly the first occurrence of every non-empty candidate, in the order of first
  occurrence; empty candidates are never kept.
\<close>

theorem kept_first_occurrences_of_nonempty:
  "unique_sentences t = first_occurrences (filter (\<lambda>s. s \<noteq> []) (candidates t))"
  by (simp add: unique_sentences_def unique_loop_first_occurrences)

section \<open>Markers and full stops in the refined text\<close>

lemma sublist_trans: "sublist xs ys \<Longrightarrow> sublist ys zs \<Longrightarrow> sublist xs zs"
  by (rule sublist_order.order.trans)

lemma strip_sublist: "sublist (strip t) t"
proof -
  have a: "sublist (dropWhile is_space t) t" by simp
  have "sublist (dropWhile is_space (rev (dropWhile is_space t))) (rev (dropWhile is_space t))"
    by simp
  then have "sublist (strip t) (dropWhile is_space t)"
    unfolding strip_def by (simp add: sublist_rev_left)
  then show ?thesis using a by (rule sublist_trans)
qed

lemma collapse_dots_hd: "collapse_dots s = x # r \<Longrightarrow> \<exists>s'. s = x # s'"
  by (cases s) (auto split: if_splits)

lemma dropWhile_not_dot: "dropWhile (\<lambda>x. x = dot) cs = x # r \<Longrightarrow> x \<noteq> dot"
  using hd_dropWhile [of "\<lambda>x. x = dot" cs] by auto

lemma no_double_dot_collapse: "\<not> sublist [dot, dot] (collapse_dots s)"
proof (induction s rule: collapse_dots.induct)
  case 1
  show ?case by simp
next
  case (2 c cs)
  show ?case
  proof (cases "c = dot")
    case True
    have "\<not> prefix [dot] (collapse_dots (dropWhile (\<lambda>x. x = dot) cs))"
    proof
      assume "prefix [dot] (collapse_dots (dropWhile (\<lambda>x. x = dot) cs))"
      then obtain r where "collapse_dots (dropWhile (\<lambda>x. x = dot) cs) = dot # r"
        by (auto simp: prefix_def)
      then obtain s' where "dropWhile (\<lambda>x. x = dot) cs = dot # s'"
        using collapse_dots_hd by blast
      then show False using dropWhile_not_dot by blast
    qed
    then show ?thesis using True 2(1)
      by (simp add: sublist_Cons_right)
  next
    case False
    then show ?thesis using 2(2)
      by (simp add: sublist_Cons_right)
  qed
qed

lemma prefix_collapse_dots:
  "dot \<notin> set xs \<Longrightarrow> prefix xs (collapse_dots s) \<Longrightarrow> prefix xs s"
proof (induction xs arbitrary: s)
  case Nil
  show ?case by simp
next
  case (Cons x xs)
  from Cons.prems(2) obtain r where r: "collapse_dots s = x # r" "prefix xs r"
    by (cases "collapse_dots s") auto
  then obtain s' where s': "s = x # s'" using collapse_dots_hd by blast
  have "x \<noteq> dot" using Cons.prems by auto
  then have "r = collapse_dots s'" using r(1) s' by simp
  then have "prefix xs s'" using Cons.IH [of s'] Cons.prems(1) r(2) by simp
  then show ?case using s' by simp
qed

lemma sublist_collapse_dots:
  "dot \<notin> set xs \<Longrightarrow> sublist xs (collapse_dots s) \<Longrightarrow> sublist xs s"
proof (induction s rule: collapse_dots.induct)
  case 1
  then show ?case by simp
next
  case (2 c cs)
  show ?case
  proof (cases "c = dot")
    case True
    from 2(4) True
    have "prefix xs (dot # collapse_dots (dropWhile (\<lambda>x. x = dot) cs)) \<or>
        sublist xs (collapse_dots (dropWhile (\<lambda>x. x = dot) cs))"
      by (simp add: sublist_Cons_right)
    then show ?thesis
    proof
      assume "prefix xs (dot # collapse_dots (dropWhile (\<lambda>x. x = dot) cs))"
      then have "xs = []" using 2(3) by (cases xs) auto
      then show ?thesis by simp
    next
      assume "sublist xs (collapse_dots (dropWhile (\<lambda>x. x = dot) cs))"
      then have "sublist xs (dropWhile (\<lambda>x. x = dot) cs)" using 2(1) [OF True 2(3)] by simp
      then have "sublist xs cs" using sublist_dropWhile by (rule sublist_trans)
      then show ?thesis by (simp add: sublist_Cons_right)
    qed
  next
    case False
    from 2(4) False
    have "prefix xs (collapse_dots (c # cs)) \<or> sublist xs (collapse_dots cs)"
      by (simp add: sublist_Cons_right)
    then show ?thesis
    proof
      assume "prefix xs (collapse_dots (c # cs))"
      then have "prefix xs (c # cs)" using 2(3) by (rule prefix_collapse_dots [rotated])
      then show ?thesis by simp
    next
      assume "sublist xs (collapse_dots cs)"
      then have "sublist xs cs" using 2(2) [OF False 2(3)] by simp
      then show ?thesis by (simp add: sublist_Cons_right)
    qed
  qed
qed

lemma sublist_across:
  assumes "d \<notin> set xs" "sublist xs (a @ d # b)"
  shows "sublist xs a \<or> sublist xs b"
proof -
  from assms(2) consider "sublist xs a" | "sublist xs (d # b)"
    | xs1 xs2 where "xs = xs1 @ xs2" "suffix xs1 a" "prefix xs2 (d # b)"
    by (auto simp: sublist_append)
  then show ?thesis
  proof cases
    case 1
    then show ?thesis by simp
  next
    case 2
    then have "prefix xs (d # b) \<or> sublist xs b" by (simp add: sublist_Cons_right)
    then show ?thesis using assms(1) by (cases xs) auto
  next
    case 3
    have "xs2 = []" using 3(1,3) assms(1) by (cases xs2) auto
    then show ?thesis using 3 by auto
  qed
qed

lemma sublist_skip:
  "set s \<inter> set xs = {} \<Longrightarrow> xs \<noteq> [] \<Longrightarrow> sublist xs (s @ w) \<Longrightarrow> sublist xs w"
proof (induction s)
  case Nil
  then show ?case by simp
next
  case (Cons d s)
  have "d \<notin> set xs" using Cons.prems(1) by auto
  moreover have "sublist xs ([] @ d # (s @ w))" using Cons.prems(3) by simp
  ultimately have "sublist xs [] \<or> sublist xs (s @ w)" by (rule sublist_across)
  then have "sublist xs (s @ w)" using Cons.prems(2) by simp
  then show ?case using Cons.IH Cons.prems by auto
qed

lemma sublist_join:
  assumes "set s \<inter> set xs = {}" "s \<noteq> []" "xs \<noteq> []"
  shows "sublist xs (join s ps) \<Longrightarrow> \<exists>p\<in>set ps. sublist xs p"
proof (induction ps rule: induct_list012)
  case 1
  then show ?case using assms by simp
next
  case (2 x)
  then show ?case by simp
next
  case (3 x y ys)
  obtain d s' where s: "s = d # s'" using assms(2) by (cases s) auto
  have "d \<notin> set xs" using assms(1) s by auto
  moreover have "sublist xs (x @ d # (s' @ join s (y # ys)))" using 3(3) s by simp
  ultimately have "sublist xs x \<or> sublist xs (s' @ join s (y # ys))" by (rule sublist_across)
  then show ?case
  proof
    assume "sublist xs x"
    then show ?thesis by simp
  next
    assume "sublist xs (s' @ join s (y # ys))"
    moreover have "set s' \<inter> set xs = {}" using assms(1) s by auto
    ultimately have "sublist xs (join s (y # ys))" using assms(3) sublist_skip by blast
    then show ?thesis using 3(2) by auto
  qed
qed

lemma split_on_not_Nil: "split_on s t \<noteq> []"
  by (cases t) (auto split: list.splits)

lemma split_on_hd_prefix: "split_on s t = p # ps \<Longrightarrow> prefix p t"
proof (induction s t arbitrary: p ps rule: split_on.induct)
  case (1 s)
  then show ?case by simp
next
  case (2 s c cs)
  show ?case
  proof (cases "prefix s (c # cs)")
    case True
    then show ?thesis using 2(3) by simp
  next
    case False
    obtain q qs where q: "split_on s cs = q # qs"
      using split_on_not_Nil [of s cs] by (cases "split_on s cs") auto
    then have "prefix q cs" using 2(2) [OF False] by simp
    then show ?thesis using 2(3) False q by auto
  qed
qed

lemma split_on_sublist: "p \<in> set (split_on s t) \<Longrightarrow> sublist p t"
proof (induction s t arbitrary: p rule: split_on.induct)
  case (1 s)
  then show ?case by simp
next
  case (2 s c cs)
  show ?case
  proof (cases "prefix s (c # cs)")
    case True
    then have "p = [] \<or> p \<in> set (split_on s (drop (length s - 1) cs))" using 2(3) by simp
    then show ?thesis
    proof
      assume "p = []"
      then show ?thesis by simp
    next
      assume "p \<in> set (split_on s (drop (length s - 1) cs))"
      then have "sublist p (drop (length s - 1) cs)" using 2(1) [OF True] by simp
      then have "sublist p cs" using sublist_drop by (rule sublist_trans)
      then show ?thesis by (simp add: sublist_Cons_right)
    qed
  next
    case False
    obtain q qs where q: "split_on s cs = q # qs"
      using split_on_not_Nil [of s cs] by (cases "split_on s cs") auto
    then have "p = c # q \<or> p \<in> set qs" using 2(3) False by simp
    then show ?thesis
    proof
      assume "p = c # q"
      moreover have "prefix q cs" using q by (rule split_on_hd_prefix)
      ultimately show ?thesis by simp
    next
      assume "p \<in> set qs"
      then have "sublist p cs" using 2(2) [OF False] q by simp
      then show ?thesis by (simp add: sublist_Cons_right)
    qed
  qed
qed

lemma marker_in_refine:
  assumes "sublist marker (refine_script t)"
  shows "sublist marker (remove_marker t)"
proof -
  have m: "dot \<notin> set marker" "marker \<noteq> []" "set sep \<inter> set marker = {}" "sep \<noteq> []"
    by (simp_all add: marker_def dot_def sep_def)
  have "sublist marker (collapse_dots (join sep (unique_sentences t)))"
    using assms strip_sublist unfolding refine_script_def by (rule sublist_trans)
  then have "sublist marker (join sep (unique_sentences t))"
    using m(1) by (rule sublist_collapse_dots [rotated])
  then obtain p where p: "p \<in> set (unique_sentences t)" "sublist marker p"
    using sublist_join [OF m(3) m(4) m(2)] by blast
  then have "p \<in> set (candidates t)"
    by (auto simp: unique_sentences_def set_unique_loop)
  then have "sublist p (remove_marker t)"
    unfolding candidates_def by (rule split_on_sublist)
  with p(2) show ?thesis by (rule sublist_trans)
qed

text \<open>
  The removal pass leaves no marker behind when no marker of the text directly follows
  one of the characters \<open>[\<close>, U+C74C, U+C545 (the first three of the marker), and also
  when every \<open>[\<close> of the text begins a marker.
\<close>

lemma remove_marker_step:
  assumes "prefix (x # w) (remove_marker cs)"
  shows "prefix marker cs \<or> (\<exists>cs'. cs = x # cs' \<and> prefix w (remove_marker cs'))"
proof (cases cs)
  case Nil
  then show ?thesis using assms by simp
next
  case (Cons y cs')
  show ?thesis
  proof (cases "prefix marker (y # cs')")
    case True
    then show ?thesis using Cons by simp
  next
    case False
    then have "remove_marker cs = y # remove_marker cs'" using Cons by simp
    then show ?thesis using assms Cons by simp
  qed
qed

lemma sublist_at_prefix: "prefix xs zs \<Longrightarrow> sublist xs (ys @ zs)"
proof -
  assume "prefix xs zs"
  then have "sublist xs zs" by (rule prefix_imp_sublist)
  moreover have "sublist zs (ys @ zs)" by simp
  ultimately show ?thesis by (rule sublist_trans)
qed

lemma remove_marker_no_rebuild:
  assumes "\<not> sublist (0x5B # marker) t" "\<not> sublist (0xC74C # marker) t"
    "\<not> sublist (0xC545 # marker) t"
  shows "\<not> sublist marker (remove_marker t)"
  using assms
proof (induction t rule: remove_marker.induct)
  case 1
  show ?case by (simp add: marker_def)
next
  case (2 c cs)
  have up: "\<And>x. sublist x cs \<Longrightarrow> sublist x (c # cs)"
    by (simp add: sublist_Cons_right)
  show ?case
  proof (cases "prefix marker (c # cs)")
    case True
    have down: "\<And>x. sublist x (drop (length marker - 1) cs) \<Longrightarrow> sublist x (c # cs)"
    proof -
      fix x assume "sublist x (drop (length marker - 1) cs)"
      then have "sublist x cs" using sublist_drop by (rule sublist_trans)
      then show "sublist x (c # cs)" by (rule up)
    qed
    have "\<not> sublist marker (remove_marker (drop (length marker - 1) cs))"
      using 2(1) [OF True] 2(3,4,5) down by blast
    then show ?thesis using True by simp
  next
    case False
    have tail: "\<not> sublist marker (remove_marker cs)"
      using 2(2) [OF False] 2(3,4,5) up by blast
    have "\<not> prefix marker (c # remove_marker cs)"
    proof
      assume "prefix marker (c # remove_marker cs)"
      then have c: "c = 0x5B" and p1: "prefix (0xC74C # [0xC545, 0x5D]) (remove_marker cs)"
        by (simp_all add: marker_def)
      from remove_marker_step [OF p1] show False
      proof
        assume "prefix marker cs"
        then have "prefix (0x5B # marker) (c # cs)" using c by simp
        then show False using 2(3) prefix_imp_sublist by blast
      next
        assume "\<exists>cs'. cs = 0xC74C # cs' \<and> prefix [0xC545, 0x5D] (remove_marker cs')"
        then obtain cs1 where cs1: "cs = 0xC74C # cs1"
          and p2: "prefix (0xC545 # [0x5D]) (remove_marker cs1)" by blast
        from remove_marker_step [OF p2] show False
        proof
          assume "prefix marker cs1"
          then have "prefix (0xC74C # marker) (0xC74C # cs1)" by simp
          then have "sublist (0xC74C # marker) ([c] @ 0xC74C # cs1)" by (rule sublist_at_prefix)
          then show False using 2(4) cs1 by simp
        next
          assume "\<exists>cs'. cs1 = 0xC545 # cs' \<and> prefix [0x5D] (remove_marker cs')"
          then obtain cs2 where cs2: "cs1 = 0xC545 # cs2"
            and p3: "prefix (0x5D # []) (remove_marker cs2)" by blast
          from remove_marker_step [OF p3] show False
          proof
            assume "prefix marker cs2"
            then have "prefix (0xC545 # marker) (0xC545 # cs2)" by simp
            then have "sublist (0xC545 # marker) ([c, 0xC74C] @ 0xC545 # cs2)"
              by (rule sublist_at_prefix)
            then show False using 2(5) cs1 cs2 by simp
          next
            assume "\<exists>cs'. cs2 = 0x5D # cs' \<and> prefix [] (remove_marker cs')"
            then obtain cs3 where "cs2 = 0x5D # cs3" by blast
            then have "prefix marker (c # cs)" using c cs1 cs2 by (simp add: marker_def)
            then show False using False by simp
          qed
        qed
      qed
    qed
    then show ?thesis using tail False by (simp add: sublist_Cons_right)
  qed
qed

lemma remove_marker_no_bracket:
  assumes "\<forall>s. suffix (0x5B # s) t \<longrightarrow> prefix marker (0x5B # s)"
  shows "0x5B \<notin> set (remove_marker t)"
  using assms
proof (induction t rule: remove_marker.induct)
  case 1
  show ?case by simp
next
  case (2 c cs)
  have tail: "\<forall>s. suffix (0x5B # s) cs \<longrightarrow> prefix marker (0x5B # s)"
    using 2(3) by (simp add: suffix_Cons)
  show ?case
  proof (cases "prefix marker (c # cs)")
    case True
    have "\<forall>s. suffix (0x5B # s) (drop (length marker - 1) cs) \<longrightarrow> prefix marker (0x5B # s)"
    proof (intro allI impI)
      fix s assume "suffix (0x5B # s) (drop (length marker - 1) cs)"
      then have "suffix (0x5B # s) cs" using suffix_drop suffix_order.trans by blast
      then show "prefix marker (0x5B # s)" using tail by blast
    qed
    then show ?thesis using 2(1) [OF True] True by simp
  next
    case False
    have "c \<noteq> 0x5B"
    proof
      assume "c = 0x5B"
      then have "suffix (0x5B # cs) (c # cs)" by simp
      then show False using 2(3) False \<open>c = 0x5B\<close> by blast
    qed
    then show ?thesis using 2(2) [OF False tail] False by simp
  qed
qed

text \<open>
  C1, amended: the refined text never contains two consecutive full stops; and it contains
  no marker whenever, in the input text, no occurrence of the marker directly follows one
  of the characters \<open>[\<close>, U+C74C, U+C545, or every \<open>[\<close> begins an occurrence of the
  marker.
\<close>

theorem refine_script_clean:
  "\<not> sublist [dot, dot] (refine_script t) \<and>
   (\<not> sublist (0x5B # marker) t \<and> \<not> sublist (0xC74C # marker) t \<and>
      \<not> sublist (0xC545 # marker) t \<longrightarrow>
    \<not> sublist marker (refine_script t)) \<and>
   ((\<forall>s. suffix (0x5B # s) t \<longrightarrow> prefix marker (0x5B # s)) \<longrightarrow>
    \<not> sublist marker (refine_script t))"
proof (intro conjI impI)
  show "\<not> sublist [dot, dot] (refine_script t)"
  proof
    assume "sublist [dot, dot] (refine_script t)"
    then have "sublist [dot, dot] (collapse_dots (join sep (unique_sentences t)))"
      using strip_sublist unfolding refine_script_def by (rule sublist_trans)
    then show False using no_double_dot_collapse by blast
  qed
next
  assume "\<not> sublist (0x5B # marker) t \<and> \<not> sublist (0xC74C # marker) t \<and>
      \<not> sublist (0xC545 # marker) t"
  then have "\<not> sublist marker (remove_marker t)" using remove_marker_no_rebuild by blast
  then show "\<not> sublist marker (refine_script t)" using marker_in_refine by blast
next
  assume "\<forall>s. suffix (0x5B # s) t \<longrightarrow> prefix marker (0x5B # s)"
  then have "0x5B \<notin> set (remove_marker t)" by (rule remove_marker_no_bracket)
  moreover have "0x5B \<in> set marker" by (simp add: marker_def)
  ultimately have "\<not> sublist marker (remove_marker t)" using set_mono_sublist by blast
  then show "\<not> sublist marker (refine_script t)" using marker_in_refine by blast
qed

text \<open>
  C1, as stated, fails. In \<open>[\<close> U+C74C \<open>[\<close> U+C74C U+C545 \<open>]\<close> U+C545 \<open>]\<close> the
  removal pass deletes the inner marker, the two halves around it join into a new marker,
  and the refined text contains it.
\<close>

theorem refine_keeps_rebuilt_marker_counterexample:
  "sublist marker (refine_script [0x5B, 0xC74C, 0x5B, 0xC74C, 0xC545, 0x5D, 0xC545, 0x5D])"
  by (simp add: refine_eval)

text \<open>
  C1, witness: the amended statement at the marker, \<open>A.. \<close>, the marker and \<open>B\<close>; the
  text contains the marker, both conditions hold, and the refined text \<open>A. B\<close> is clean.
\<close>

theorem refine_script_clean_witness:
  "sublist marker [0x5B, 0xC74C, 0xC545, 0x5D, 0x41, 0x2E, 0x2E, 0x20, 0x5B, 0xC74C, 0xC545, 0x5D, 0x42] \<and>
   \<not> sublist (0x5B # marker) [0x5B, 0xC74C, 0xC545, 0x5D, 0x41, 0x2E, 0x2E, 0x20, 0x5B, 0xC74C, 0xC545, 0x5D, 0x42] \<and>
   \<not> sublist (0xC74C # marker) [0x5B, 0xC74C, 0xC545, 0x5D, 0x41, 0x2E, 0x2E, 0x20, 0x5B, 0xC74C, 0xC545, 0x5D, 0x42] \<and>
   \<not> sublist (0xC545 # marker) [0x5B, 0xC74C, 0xC545, 0x5D, 0x41, 0x2E, 0x2E, 0x20, 0x5B, 0xC74C, 0xC545, 0x5D, 0x42] \<and>
   \<not> sublist [dot, dot] (refine_script [0x5B, 0xC74C, 0xC545, 0x5D, 0x41, 0x2E, 0x2E, 0x20, 0x5B, 0xC74C, 0xC545, 0x5D, 0x42]) \<and>
   \<not> sublist marker (refine_script [0x5B, 0xC74C, 0xC545, 0x5D, 0x41, 0x2E, 0x2E, 0x20, 0x5B, 0xC74C, 0xC545, 0x5D, 0x42])"
proof -
  have m: "sublist marker [0x5B, 0xC74C, 0xC545, 0x5D, 0x41, 0x2E, 0x2E, 0x20, 0x5B, 0xC74C, 0xC545, 0x5D, 0x42]"
    by (simp add: marker_def sublist_Cons_right)
  have a: "\<not> sublist (0x5B # marker) [0x5B, 0xC74C, 0xC545, 0x5D, 0x41, 0x2E, 0x2E, 0x20, 0x5B, 0xC74C, 0xC545, 0x5D, 0x42] \<and>
      \<not> sublist (0xC74C # marker) [0x5B, 0xC74C, 0xC545, 0x5D, 0x41, 0x2E, 0x2E, 0x20, 0x5B, 0xC74C, 0xC545, 0x5D, 0x42] \<and>
      \<not> sublist (0xC545 # marker) [0x5B, 0xC74C, 0xC545, 0x5D, 0x41, 0x2E, 0x2E, 0x20, 0x5B, 0xC74C, 0xC545, 0x5D, 0x42]"
    by (simp add: marker_def sublist_Cons_right)
  have b: "\<forall>s. suffix (0x5B # s) [0x5B, 0xC74C, 0xC545, 0x5D, 0x41, 0x2E, 0x2E, 0x20, 0x5B, 0xC74C, 0xC545, 0x5D, 0x42] \<longrightarrow> prefix marker (0x5B # s)"
    by (simp add: marker_def suffix_Cons)
  show ?thesis
    using m a b refine_script_clean [of "[0x5B, 0xC74C, 0xC545, 0x5D, 0x41, 0x2E, 0x2E, 0x20, 0x5B, 0xC74C, 0xC545, 0x5D, 0x42]"] by blast
qed

lemma remove_marker_id: "\<not> sublist marker t \<Longrightarrow> remove_marker t = t"
proof (induction t)
  case Nil
  show ?case by simp
next
  case (Cons c cs)
  have "\<not> prefix marker (c # cs)" using Cons.prems prefix_imp_sublist by blast
  moreover have "\<not> sublist marker cs" using Cons.prems by (simp add: sublist_Cons_right)
  ultimately show ?case using Cons.IH by simp
qed

lemma join_Cons_hd: "join s ((c # p) # ps) = c # join s (p # ps)"
  by (cases ps) simp_all

lemma join_split_on: "s \<noteq> [] \<Longrightarrow> join s (split_on s t) = t"
proof (induction s t rule: split_on.induct)
  case (1 s)
  show ?case by simp
next
  case (2 s c cs)
  show ?case
  proof (cases "prefix s (c # cs)")
    case True
    obtain q qs where q: "split_on s (drop (length s - 1) cs) = q # qs"
      using split_on_not_Nil [of s "drop (length s - 1) cs"]
      by (cases "split_on s (drop (length s - 1) cs)") auto
    have "join s (q # qs) = drop (length s - 1) cs" using 2(1) [OF True 2(3)] q by simp
    then have "join s (split_on s (c # cs)) = s @ drop (length s - 1) cs"
      using True q by simp
    also have "drop (length s - 1) cs = drop (length s) (c # cs)"
      using 2(3) by (cases s) simp_all
    also have "s @ drop (length s) (c # cs) = c # cs"
      using True by (auto simp: prefix_def)
    finally show ?thesis .
  next
    case False
    obtain q qs where q: "split_on s cs = q # qs"
      using split_on_not_Nil [of s cs] by (cases "split_on s cs") auto
    then show ?thesis using False 2(2) [OF False 2(3)] by (simp add: join_Cons_hd)
  qed
qed

lemma unique_loop_distinct:
  "distinct (acc @ cs) \<Longrightarrow> [] \<notin> set cs \<Longrightarrow> unique_loop acc cs = acc @ cs"
  by (induction cs arbitrary: acc) auto

lemma collapse_dots_id: "\<not> sublist [dot, dot] t \<Longrightarrow> collapse_dots t = t"
proof (induction t rule: collapse_dots.induct)
  case 1
  show ?case by simp
next
  case (2 c cs)
  have rest: "\<not> sublist [dot, dot] cs" using 2(3) by (simp add: sublist_Cons_right)
  show ?case
  proof (cases "c = dot")
    case True
    have "\<not> prefix [dot, dot] (c # cs)" using 2(3) prefix_imp_sublist by blast
    then have "dropWhile (\<lambda>x. x = dot) cs = cs" using True by (cases cs) auto
    then show ?thesis using True rest 2(1) by simp
  next
    case False
    then show ?thesis using rest 2(2) by simp
  qed
qed

lemma strip_id:
  assumes "t \<noteq> []" "\<not> is_space (hd t)" "\<not> is_space (last t)"
  shows "strip t = t"
proof -
  have a: "dropWhile is_space t = t" using assms(1,2) by (cases t) auto
  obtain x xs where r: "rev t = x # xs" using assms(1) by (cases "rev t") auto
  have "hd (rev t) = last t" using assms(1) by (simp add: hd_rev)
  then have "x = last t" unfolding r by simp
  then have d: "dropWhile is_space (x # xs) = x # xs" using assms(3) by simp
  have "dropWhile is_space (rev t) = rev t" unfolding r by (rule d)
  then show ?thesis by (simp add: strip_def a)
qed

text \<open>
  C3, amended: a text without marker, whose candidate sentences are pairwise distinct and
  non-empty, without two consecutive full stops and without whitespace at its ends is
  returned unchanged by the refiner; so refining it twice is refining it once.
\<close>

theorem refine_script_fixpoint:
  assumes "\<not> sublist marker t"
    and "distinct (split_on sep t)" and "[] \<notin> set (split_on sep t)"
    and "\<not> sublist [dot, dot] t"
    and "\<not> is_space (hd t)" and "\<not> is_space (last t)"
  shows "refine_script t = t \<and> refine_script (refine_script t) = refine_script t"
proof -
  have ne: "t \<noteq> []" using assms(3) by auto
  have "candidates t = split_on sep t"
    by (simp add: candidates_def remove_marker_id [OF assms(1)])
  then have "unique_sentences t = split_on sep t"
    using unique_loop_distinct [of "[]" "split_on sep t"] assms(2,3)
    by (simp add: unique_sentences_def)
  then have "join sep (unique_sentences t) = t"
    by (simp add: join_split_on sep_def)
  then have "refine_script t = t"
    by (simp add: refine_script_def collapse_dots_id [OF assms(4)] strip_id [OF ne assms(5,6)])
  then show ?thesis by simp
qed

text \<open>
  C3, witness: the amended statement at \<open>A. B\<close>.
\<close>

theorem refine_script_fixpoint_witness:
  "\<not> sublist marker [0x41, 0x2E, 0x20, 0x42] \<and>
   distinct (split_on sep [0x41, 0x2E, 0x20, 0x42]) \<and>
   [] \<notin> set (split_on sep [0x41, 0x2E, 0x20, 0x42]) \<and>
   \<not> sublist [dot, dot] [0x41, 0x2E, 0x20, 0x42] \<and>
   \<not> is_space (hd [0x41, 0x2E, 0x20, 0x42]) \<and> \<not> is_space (last [0x41, 0x2E, 0x20, 0x42]) \<and>
   refine_script [0x41, 0x2E, 0x20, 0x42] = [0x41, 0x2E, 0x20, 0x42] \<and>
   refine_script (refine_script [0x41, 0x2E, 0x20, 0x42]) = refine_script [0x41, 0x2E, 0x20, 0x42]"
proof -
  have h1: "\<not> sublist marker [0x41, 0x2E, 0x20, 0x42]"
    by (simp add: marker_def sublist_Cons_right)
  have h2: "distinct (split_on sep [0x41, 0x2E, 0x20, 0x42])"
    by (simp add: sep_def)
  have h3: "[] \<notin> set (split_on sep [0x41, 0x2E, 0x20, 0x42])"
    by (simp add: sep_def)
  have h4: "\<not> sublist [dot, dot] [0x41, 0x2E, 0x20, 0x42]"
    by (simp add: dot_def sublist_Cons_right)
  have h5: "\<not> is_space (hd [0x41, 0x2E, 0x20, 0x42])"
    by (simp add: is_space_def)
  have h6: "\<not> is_space (last [0x41, 0x2E, 0x20, 0x42])"
    by (simp add: is_space_def)
  show ?thesis
    using h1 h2 h3 h4 h5 h6 refine_script_fixpoint [OF h1 h2 h3 h4 h5 h6] by blast
qed

text \<open>
  C3, as stated, fails. The texts \<open>A. A.. B\<close>, \<open> A. A\<close> (with a leading space) and
  \<open>.  A. A\<close> contain no marker and split into pairwise distinct candidates, but the
  refiner changes its own result on each: collapsing the full stops, trimming the first
  sentence or dropping the empty one makes two sentences equal, and the second pass
  removes the duplicate.
\<close>

theorem refine_not_idempotent_counterexample:
  "\<not> sublist marker [0x41, 0x2E, 0x20, 0x41, 0x2E, 0x2E, 0x20, 0x42] \<and>
   distinct (split_on sep [0x41, 0x2E, 0x20, 0x41, 0x2E, 0x2E, 0x20, 0x42]) \<and>
   refine_script (refine_script [0x41, 0x2E, 0x20, 0x41, 0x2E, 0x2E, 0x20, 0x42])
     \<noteq> refine_script [0x41, 0x2E, 0x20, 0x41, 0x2E, 0x2E, 0x20, 0x42] \<and>
   \<not> sublist marker [0x20, 0x41, 0x2E, 0x20, 0x41] \<and>
   distinct (split_on sep [0x20, 0x41, 0x2E, 0x20, 0x41]) \<and>
   refine_script (refine_script [0x20, 0x41, 0x2E, 0x20, 0x41])
     \<noteq> refine_script [0x20, 0x41, 0x2E, 0x20, 0x41] \<and>
   \<not> sublist marker [0x2E, 0x20, 0x20, 0x41, 0x2E, 0x20, 0x41] \<and>
   distinct (split_on sep [0x2E, 0x20, 0x20, 0x41, 0x2E, 0x20, 0x41]) \<and>
   refine_script (refine_script [0x2E, 0x20, 0x20, 0x41, 0x2E, 0x20, 0x41])
     \<noteq> refine_script [0x2E, 0x20, 0x20, 0x41, 0x2E, 0x20, 0x41]"
  by (simp add: refine_eval sublist_Cons_right)

section \<open>The refiner on the example text\<close>

text \<open>
  C5, as stated, fails: on the marker, a space, \<open>Hello.\<close>, a space, the marker, a space
  and \<open>World.\<close> the refiner does not return \<open>Hello. World.\<close> with one space.
\<close>

theorem refine_example_counterexample:
  "refine_script
     ([0x5B, 0xC74C, 0xC545, 0x5D, 0x20, 0x48, 0x65, 0x6C, 0x6C, 0x6F, 0x2E, 0x20,
       0x5B, 0xC74C, 0xC545, 0x5D, 0x20, 0x57, 0x6F, 0x72, 0x6C, 0x64, 0x2E])
   \<noteq> [0x48, 0x65, 0x6C, 0x6C, 0x6F, 0x2E, 0x20, 0x57, 0x6F, 0x72, 0x6C, 0x64, 0x2E]"
  by (simp add: refine_eval)

text \<open>
  C5, amended: on that text the refiner returns \<open>Hello.\<close>, two spaces, \<open>World.\<close>:
  the space before the second marker and the space after it both stay.
\<close>

theorem refine_example_two_spaces:
  "refine_script
     ([0x5B, 0xC74C, 0xC545, 0x5D, 0x20, 0x48, 0x65, 0x6C, 0x6C, 0x6F, 0x2E, 0x20,
       0x5B, 0xC74C, 0xC545, 0x5D, 0x20, 0x57, 0x6F, 0x72, 0x6C, 0x64, 0x2E])
   = [0x48, 0x65, 0x6C, 0x6C, 0x6F, 0x2E, 0x20, 0x20, 0x57, 0x6F, 0x72, 0x6C, 0x64, 0x2E]"
  by (simp add: refine_eval)

section \<open>The language detector on the example texts\<close>

text \<open>
  C6: \<open>Hello world\<close> is detected as \<open>en\<close> and the five Hangul syllables U+C548 U+B155
  U+D558 U+C138 U+C694 as \<open>ko\<close>, but the empty text is detected as \<open>ko\<close>, not
  \<open>en\<close>: all counts are 0, \<open>max\<close> picks the first key, and \<open>0 < 0 * 0.05\<close> is false.
\<close>

theorem detect_examples:
  "detect_language [0x48, 0x65, 0x6C, 0x6C, 0x6F, 0x20, 0x77, 0x6F, 0x72, 0x6C, 0x64] = Some ''en'' \<and>
   detect_language [0xC548, 0xB155, 0xD558, 0xC138, 0xC694] = Some ''ko'' \<and>
   detect_language [] = Some ''ko''"
  by (simp add: detect_eval)

section \<open>The 5 percent test in double arithmetic\<close>

text \<open>
  Below \<open>2^53\<close> characters the length is a double itself, and the rounded product
  decides the comparison exactly as the rational number \<open>len / 20\<close> would.
\<close>

lemma bitlen_le: "n < 2 ^ k \<Longrightarrow> bitlen n \<le> k"
proof (induction k arbitrary: n)
  case 0
  then show ?case by (simp add: bitlen.simps)
next
  case (Suc k)
  have "n div 2 < 2 ^ k" using Suc.prems by simp
  from Suc.IH [OF this] show ?case by (subst bitlen.simps) simp
qed

lemma bitlen_gt: "2 ^ k \<le> n \<Longrightarrow> k < bitlen n"
proof (induction k arbitrary: n)
  case 0
  then show ?case by (subst bitlen.simps) simp
next
  case (Suc k)
  have "2 ^ k \<le> n div 2" using Suc.prems by simp
  from Suc.IH [OF this] have "k < bitlen (n div 2)" .
  moreover have "n \<noteq> 0"
  proof
    assume "n = 0"
    with Suc.prems show False by simp
  qed
  ultimately show ?case by (subst bitlen.simps) simp
qed

lemma round53_small: "n < 2 ^ 53 \<Longrightarrow> round53 n = n"
  using bitlen_le [of n 53] by (simp add: round53_def)

lemma round53_near:
  assumes "53 < bitlen a"
  defines "d \<equiv> bitlen a - 53"
  shows "\<exists>m. round53 a = m * 2 ^ d" 
    and "2 * round53 a \<le> 2 * a + 2 ^ d" 
    and "2 * a \<le> 2 * round53 a + 2 ^ d"
proof -
  define q where "q = a div 2 ^ d"
  define r where "r = a mod 2 ^ d"
  define h :: nat where "h = 2 ^ (d - 1)"
  have dpos: "0 < d" using assms by simp
  have hh: "2 * h = 2 ^ d"
    using dpos by (cases d) (simp_all add: h_def)
  have a: "a = q * 2 ^ d + r" unfolding q_def r_def by (rule div_mult_mod_eq [symmetric])
  have r: "r < 2 ^ d" by (simp add: r_def)
  have R: "round53 a = (if r > h \<or> (r = h \<and> odd q) then q + 1 else q) * 2 ^ d"
    using assms(1) by (simp add: round53_def Let_def q_def r_def h_def d_def)
  show "\<exists>m. round53 a = m * 2 ^ d" using R by blast
  show "2 * round53 a \<le> 2 * a + 2 ^ d"
    using R a r hh by (auto simp: algebra_simps)
  show "2 * a \<le> 2 * round53 a + 2 ^ d"
    using R a r hh by (auto simp: algebra_simps)
qed

lemma lt_two_bitlen: "n < 2 ^ bitlen n"
proof (induction n rule: bitlen.induct)
  case (1 n)
  show ?case
  proof (cases "n = 0")
    case True
    then show ?thesis by simp
  next
    case False
    from 1 [OF False] have "n div 2 < 2 ^ bitlen (n div 2)" .
    then have "n < 2 * 2 ^ bitlen (n div 2)" by simp
    then show ?thesis using False by (subst bitlen.simps) simp
  qed
qed

lemma two_bitlen_le: "0 < n \<Longrightarrow> 2 ^ (bitlen n - 1) \<le> n"
proof (rule ccontr)
  assume n: "0 < n" and "\<not> 2 ^ (bitlen n - 1) \<le> n"
  then have "n < 2 ^ (bitlen n - 1)" by simp
  from bitlen_le [OF this] have "bitlen n \<le> bitlen n - 1" .
  moreover have "0 < bitlen n" using n by (subst bitlen.simps) simp
  ultimately show False by simp
qed

lemma mult_pow_le:
  fixes m k :: nat
  assumes "m * 2 ^ d < k * 2 ^ d + 2 ^ d"
  shows "m * 2 ^ d \<le> k * 2 ^ d"
proof -
  have e: "(k + 1) * 2 ^ d = k * 2 ^ d + 2 ^ d" by (simp add: add_mult_distrib)
  have "m * 2 ^ d < (k + 1) * 2 ^ d" unfolding e by (rule assms)
  then have "m < k + 1" unfolding mult_less_cancel2 by simp
  then show ?thesis by simp
qed

lemma below_5_percent_exact:
  assumes n: "n < 2 ^ 53"
  shows "below_5_percent c n \<longleftrightarrow> 20 * c < n"
proof -
  define a where "a = n * 3602879701896397"
  have a20: "20 * a = n * 72057594037927936 + 4 * n" by (simp add: a_def)
  have nb: "n < 9007199254740992" using n by simp
  have B: "below_5_percent c n \<longleftrightarrow> c * 72057594037927936 < round53 a"
    using round53_small [OF n] by (simp add: below_5_percent_def double_0_05_def a_def)
  show ?thesis
  proof (cases "53 < bitlen a")
    case False
    then have R: "round53 a = a" by (simp add: round53_def)
    have "a < 2 ^ bitlen a" by (rule lt_two_bitlen)
    also have "\<dots> \<le> 2 ^ 53" using False by (intro power_increasing) simp_all
    finally have "a < 9007199254740992" by simp
    then show ?thesis unfolding B R using a20 by arith
  next
    case True
    define d where "d = bitlen a - 53"
    have "a < 2 ^ 105" using nb by (simp add: a_def)
    from bitlen_le [OF this] have d52: "d \<le> 52" by (simp add: d_def)
    then have "(2::nat) ^ d \<le> 2 ^ 52" by (intro power_increasing) simp_all
    then have P: "(2::nat) ^ d \<le> 4503599627370496" by simp
    from round53_near [OF True] obtain m where
      m: "round53 a = m * 2 ^ d" and
      up: "2 * round53 a \<le> 2 * a + 2 ^ d" and
      dn: "2 * a \<le> 2 * round53 a + 2 ^ d"
      unfolding d_def by blast
    have K: "(72057594037927936::nat) = 2 ^ (56 - d) * 2 ^ d"
      using d52 by (simp add: power_add [symmetric])
    show ?thesis
    proof
      assume "below_5_percent c n"
      then have lt: "c * 72057594037927936 < round53 a" by (simp add: B)
      show "20 * c < n"
      proof (rule ccontr)
        assume "\<not> 20 * c < n"
        then have ge: "n \<le> 20 * c" by simp
        have near: "2 * a < 2 * (c * 72057594037927936) + 2 ^ d"
        proof (cases "n = 20 * c")
          case False
          with ge have "n + 1 \<le> 20 * c" by simp
          then show ?thesis using a20 nb by arith
        next
          case eq: True
          have a_eq: "a = c * 72057594037927936 + 4 * c" using a20 eq by simp
          have cpos: "0 < c"
          proof (rule ccontr)
            assume "\<not> 0 < c"
            then have "a = 0" using a_eq by simp
            then have "bitlen a = 0" by (simp add: bitlen.simps)
            with True show False by simp
          qed
          define j where "j = bitlen c - 1"
          have j1: "2 ^ j \<le> c" unfolding j_def by (rule two_bitlen_le [OF cpos])
          have "0 < bitlen c" using cpos by (subst bitlen.simps) simp
          then have "bitlen c = Suc j" by (simp add: j_def)
          then have j2: "c < 2 * 2 ^ j" using lt_two_bitlen [of c] by simp
          have "(2::nat) ^ (j + 56) = 2 ^ j * 72057594037927936" by (simp add: power_add)
          also have "\<dots> \<le> a" using j1 a_eq by simp
          finally have "j + 56 < bitlen a" by (rule bitlen_gt)
          then have "j + 4 \<le> d" by (simp add: d_def)
          then have "(2::nat) ^ (j + 4) \<le> 2 ^ d" by (intro power_increasing) simp_all
          then have "16 * 2 ^ j \<le> (2::nat) ^ d" by (simp add: power_add)
          then show ?thesis using a_eq j2 by arith
        qed
        have "2 * round53 a < 2 * (c * 72057594037927936) + 2 * 2 ^ d"
          using up near by arith
        then have "m * 2 ^ d < (c * 2 ^ (56 - d)) * 2 ^ d + 2 ^ d"
          unfolding m by (subst (asm) K) (simp add: algebra_simps)
        from mult_pow_le [OF this] have "round53 a \<le> c * 72057594037927936"
          unfolding m by (subst K) (simp add: algebra_simps)
        with lt show False by simp
      qed
    next
      assume "20 * c < n"
      then have "20 * c + 1 \<le> n" by simp
      then have "c * 72057594037927936 < round53 a"
        using a20 dn P by arith
      then show "below_5_percent c n" by (simp add: B)
    qed
  qed
qed

section \<open>What the language detector returns\<close>

lemma max_from_counts:
  "max_from (''ko'', k) [(''ja'', j), (''zh'', z), (''en'', e)] = winner k j z e"
  by (auto simp: winner_def)

lemma max_by_count_counts:
  "max_by_count (counts t) =
     Some (winner (count_in korean_chars t) (count_in japanese_chars t)
             (count_in chinese_chars t) (count_in english_chars t))"
  by (simp add: max_by_count_def counts_def max_from_counts del: max_from.simps)

lemma all_less_4: "(\<forall>j<4. P j) \<longleftrightarrow> P (0::nat) \<and> P 1 \<and> P 2 \<and> P 3"
proof
  assume "\<forall>j<4. P j"
  then show "P 0 \<and> P 1 \<and> P 2 \<and> P 3" by simp
next
  assume p: "P 0 \<and> P 1 \<and> P 2 \<and> P 3"
  show "\<forall>j<4. P j"
  proof (intro allI impI)
    fix j :: nat
    assume "j < 4"
    then consider "j = 0" | "j = 1" | "j = 2" | "j = 3" by arith
    then show "P j" using p by cases simp_all
  qed
qed

text \<open>
  C9: the detector returns for every text, and what it returns is one of the four codes
  \<open>ko\<close>, \<open>ja\<close>, \<open>zh\<close>, \<open>en\<close>.
\<close>

theorem detect_language_total:
  "\<exists>l. detect_language t = Some l \<and> l \<in> {''ko'', ''ja'', ''zh'', ''en''}"
  by (simp add: detect_language_def max_by_count_counts winner_def)

text \<open>
  On the dictionary \<open>counts\<close> of the code, for a text of fewer than \<open>2^53\<close> characters:
  the detector returns the key of the first maximal count, or \<open>en\<close> when 20 times that
  count is less than the length of the text.
\<close>

lemma detect_language_first_max:
  assumes "length t < 2 ^ 53"
  shows "map fst (counts t) = [''ko'', ''ja'', ''zh'', ''en''] \<and>
    (\<exists>i<4. (\<forall>j<4. snd (counts t ! j) \<le> snd (counts t ! i)) \<and>
            (\<forall>j<i. snd (counts t ! j) < snd (counts t ! i)) \<and>
            detect_language t =
              Some (if 20 * snd (counts t ! i) < length t then ''en'' else fst (counts t ! i)))"
proof -
  define k where "k = count_in korean_chars t"
  define j where "j = count_in japanese_chars t"
  define z where "z = count_in chinese_chars t"
  define e where "e = count_in english_chars t"
  have c: "counts t = [(''ko'', k), (''ja'', j), (''zh'', z), (''en'', e)]"
    by (simp add: counts_def k_def j_def z_def e_def)
  have d: "detect_language t =
      Some (if 20 * snd (winner k j z e) < length t then ''en'' else fst (winner k j z e))"
    by (simp add: detect_language_def max_by_count_counts below_5_percent_exact [OF assms]
        k_def j_def z_def e_def split: prod.splits)
  have "\<exists>i<4. (\<forall>m<4. snd (counts t ! m) \<le> snd (counts t ! i)) \<and>
            (\<forall>m<i. snd (counts t ! m) < snd (counts t ! i)) \<and> winner k j z e = counts t ! i"
  proof (cases "k \<ge> j \<and> k \<ge> z \<and> k \<ge> e")
    case True
    then show ?thesis
      by (intro exI [of _ 0]) (simp add: c winner_def all_less_4)
  next
    case nk: False
    show ?thesis
    proof (cases "j \<ge> z \<and> j \<ge> e")
      case True
      with nk show ?thesis
        by (intro exI [of _ 1]) (auto simp: c winner_def all_less_4)
    next
      case nj: False
      show ?thesis
      proof (cases "z \<ge> e")
        case True
        with nk nj show ?thesis
          by (intro exI [of _ 2]) (auto simp: c winner_def all_less_4 less_Suc_eq numeral_2_eq_2)
      next
        case False
        with nk nj show ?thesis
          by (intro exI [of _ 3]) (auto simp: c winner_def all_less_4 less_Suc_eq numeral_3_eq_3)
      qed
    qed
  qed
  then obtain i where "i < 4" 
    "\<forall>m<4. snd (counts t ! m) \<le> snd (counts t ! i)"
    "\<forall>m<i. snd (counts t ! m) < snd (counts t ! i)" "winner k j z e = counts t ! i"
    by blast
  then show ?thesis using d by (auto simp: counts_def)
qed

lemma counts_class_counts:
  assumes "0x30FF \<notin> set t" "0x9FFF \<notin> set t"
  shows "counts t = class_counts t"
proof -
  have ko: "filter korean_chars t = filter (\<lambda>c. 0xAC00 \<le> c \<and> c \<le> 0xD7A3) t"
    by (rule filter_cong) (auto simp: korean_chars_def)
  have ja: "filter japanese_chars t = filter (\<lambda>c. 0x3040 \<le> c \<and> c \<le> 0x30FF) t"
  proof (rule filter_cong)
    fix c assume "c \<in> set t"
    then have "c \<noteq> 0x30FF" using assms(1) by auto
    then show "japanese_chars c = (0x3040 \<le> c \<and> c \<le> 0x30FF)"
      by (auto simp: japanese_chars_def)
  qed simp
  have zh: "filter chinese_chars t = filter (\<lambda>c. 0x4E00 \<le> c \<and> c \<le> 0x9FFF) t"
  proof (rule filter_cong)
    fix c assume "c \<in> set t"
    then have "c \<noteq> 0x9FFF" using assms(2) by auto
    then show "chinese_chars c = (0x4E00 \<le> c \<and> c \<le> 0x9FFF)"
      by (auto simp: chinese_chars_def)
  qed simp
  have en: "filter english_chars t =
      filter (\<lambda>c. (0x41 \<le> c \<and> c \<le> 0x5A) \<or> (0x61 \<le> c \<and> c \<le> 0x7A)) t"
    by (rule filter_cong) (auto simp: english_chars_def)
  show ?thesis
    by (simp add: counts_def class_counts_def count_in_def ko ja zh en)
qed

text \<open>
  C2, as stated, fails. U+3400 is a CJK ideograph outside the range the code counts, and
  U+9FFF and U+30FF are the last code points of the CJK Unified Ideographs and of the
  Katakana block, which the ranges of the code exclude: the text U+3400 is detected as
  \<open>en\<close>, not \<open>zh\<close>; three U+9FFF and one Hangul syllable as \<open>ko\<close>, not \<open>zh\<close>; five
  U+30FF and the letter \<open>a\<close> as \<open>en\<close>, not \<open>ja\<close>.
\<close>

theorem detect_language_classes_counterexample:
  "detect_language [0x3400] = Some ''en'' \<and>
   detect_language [0x9FFF, 0x9FFF, 0x9FFF, 0xAC00] = Some ''ko'' \<and>
   detect_language [0x30FF, 0x30FF, 0x30FF, 0x30FF, 0x30FF, 0x61] = Some ''en''"
  by (simp add: detect_eval)

text \<open>
  C2, amended: for a text of fewer than \<open>2^53\<close> characters that contains neither U+30FF
  nor U+9FFF, the detector returns the language at an index \<open>i\<close> of \<open>ko, ja, zh, en\<close>
  whose count is maximal and strictly greater than every count before it, the counts being
  those of the Hangul syllables U+AC00 to U+D7A3, of Hiragana and Katakana U+3040 to U+30FF,
  of the CJK Unified Ideographs U+4E00 to U+9FFF and of the ASCII letters; except that it
  returns \<open>en\<close> when 20 times that count is less than the number of all characters.
\<close>

theorem detect_language_by_classes:
  assumes "length t < 2 ^ 53" and "0x30FF \<notin> set t" and "0x9FFF \<notin> set t"
  shows "\<exists>i<4. (\<forall>j<4. snd (class_counts t ! j) \<le> snd (class_counts t ! i)) \<and>
            (\<forall>j<i. snd (class_counts t ! j) < snd (class_counts t ! i)) \<and>
            detect_language t =
              Some (if 20 * snd (class_counts t ! i) < length t then ''en''
                    else fst (class_counts t ! i))"
proof -
  have c: "counts t = class_counts t" using assms(2,3) by (rule counts_class_counts)
  show ?thesis using detect_language_first_max [OF assms(1)] unfolding c by blast
qed

text \<open>C2, witness: the amended statement at the one-syllable text U+C548.\<close>

theorem detect_language_by_classes_witness:
  "length [0xC548 :: nat] < 2 ^ 53 \<and> 0x30FF \<notin> set [0xC548 :: nat] \<and>
   0x9FFF \<notin> set [0xC548 :: nat] \<and>
   (\<exists>i<4. (\<forall>j<4. snd (class_counts [0xC548] ! j) \<le> snd (class_counts [0xC548] ! i)) \<and>
           (\<forall>j<i. snd (class_counts [0xC548] ! j) < snd (class_counts [0xC548] ! i)) \<and>
           detect_language [0xC548] =
             Some (if 20 * snd (class_counts [0xC548] ! i) < length [0xC548 :: nat] then ''en''
                   else fst (class_counts [0xC548] ! i))) \<and>
   detect_language [0xC548] = Some ''ko''"
proof -
  have h1: "length [0xC548 :: nat] < 2 ^ 53" by simp
  have h2: "0x30FF \<notin> set [0xC548 :: nat]" by simp
  have h3: "0x9FFF \<notin> set [0xC548 :: nat]" by simp
  have e: "detect_language [0xC548] = Some ''ko''" by (simp add: detect_eval)
  show ?thesis using h1 h2 h3 e detect_language_by_classes [OF h1 h2 h3] by blast
qed

section \<open>The paragraphs of the segmenter\<close>

lemma paragraph_loop_groups:
  "paragraph_loop lower (map (join [0x20]) gs) cur ss =
     (map (join [0x20]) (fst (group_loop lower gs cur ss)), snd (group_loop lower gs cur ss))"
proof (induction ss arbitrary: gs cur)
  case Nil
  show ?case by simp
next
  case (Cons s ss)
  show ?case
    using Cons.IH [of gs cur] Cons.IH [of gs "cur @ [s]"] Cons.IH [of "gs @ [cur @ [s]]" "[]"]
    by simp
qed

lemma split_into_paragraphs_groups:
  "split_into_paragraphs lower t = map (join [0x20]) (paragraph_sentences lower t)"
  using paragraph_loop_groups [of lower "[]" "[]" "split_sentences (remove_marker t)"]
  by (simp add: split_into_paragraphs_def paragraph_sentences_def split: prod.splits)

lemma group_loop_concat:
  "concat (fst (group_loop lower gs cur ss)) @ snd (group_loop lower gs cur ss) =
     concat gs @ cur @ filter (\<lambda>s. strip s \<noteq> []) ss"
  by (induction ss arbitrary: gs cur) simp_all

lemma closed_group_snoc:
  assumes "open_buffer lower cur" "strip s \<noteq> []"
  shows "closed_group lower (cur @ [s])"
proof -
  have "length (cur @ [s]) \<le> 5" using assms(1) by (simp add: open_buffer_def)
  moreover have "\<forall>x\<in>set (cur @ [s]). strip x \<noteq> []"
    using assms by (simp add: open_buffer_def)
  moreover have "\<forall>x\<in>set (butlast (cur @ [s])). \<not> has_keyword lower x"
    using assms(1) by (simp add: open_buffer_def)
  ultimately show ?thesis unfolding closed_group_def by simp
qed

lemma open_buffer_snoc:
  assumes "open_buffer lower cur" "strip s \<noteq> []"
    and "\<not> (length (cur @ [s]) \<ge> 5 \<or> has_keyword lower s)"
  shows "open_buffer lower (cur @ [s])"
proof -
  have "length (cur @ [s]) < 5" using assms(3) by simp
  moreover have "\<forall>x\<in>set (cur @ [s]). strip x \<noteq> [] \<and> \<not> has_keyword lower x"
    using assms by (simp add: open_buffer_def)
  ultimately show ?thesis unfolding open_buffer_def by simp
qed

lemma group_loop_invariant:
  assumes "\<forall>g\<in>set gs. closed_group lower g" "open_buffer lower cur"
  shows "(\<forall>g\<in>set (fst (group_loop lower gs cur ss)). closed_group lower g) \<and>
         open_buffer lower (snd (group_loop lower gs cur ss))"
  using assms
proof (induction ss arbitrary: gs cur)
  case Nil
  then show ?case by simp
next
  case (Cons s ss)
  show ?case
  proof (cases "strip s \<noteq> []")
    case False
    then have e: "group_loop lower gs cur (s # ss) = group_loop lower gs cur ss" by simp
    show ?thesis unfolding e using Cons.prems by (rule Cons.IH)
  next
    case True
    show ?thesis
    proof (cases "length (cur @ [s]) \<ge> 5 \<or> has_keyword lower s")
      case flush: True
      have e: "group_loop lower gs cur (s # ss) = group_loop lower (gs @ [cur @ [s]]) [] ss"
        using True flush by simp
      have "closed_group lower (cur @ [s])"
        using Cons.prems(2) True by (rule closed_group_snoc)
      then have a: "\<forall>g\<in>set (gs @ [cur @ [s]]). closed_group lower g"
        using Cons.prems(1) by simp
      have b: "open_buffer lower []" by (simp add: open_buffer_def)
      show ?thesis unfolding e using a b by (rule Cons.IH)
    next
      case keep: False
      have e: "group_loop lower gs cur (s # ss) = group_loop lower gs (cur @ [s]) ss"
        using True keep by simp
      have b: "open_buffer lower (cur @ [s])"
        using Cons.prems(2) True keep by (rule open_buffer_snoc)
      show ?thesis unfolding e using Cons.prems(1) b by (rule Cons.IH)
    qed
  qed
qed

lemma open_buffer_closed:
  assumes "open_buffer lower cur" "cur \<noteq> []"
  shows "closed_group lower cur"
proof -
  have "1 \<le> length cur" using assms(2) by (cases cur) simp_all
  moreover have "length cur \<le> 5" using assms(1) by (simp add: open_buffer_def)
  moreover have "\<forall>s\<in>set cur. strip s \<noteq> []" using assms(1) by (simp add: open_buffer_def)
  moreover have "\<forall>s\<in>set (butlast cur). \<not> has_keyword lower s"
  proof
    fix s assume "s \<in> set (butlast cur)"
    then have "s \<in> set cur" by (rule in_set_butlastD)
    then show "\<not> has_keyword lower s" using assms(1) by (simp add: open_buffer_def)
  qed
  ultimately show ?thesis unfolding closed_group_def by blast
qed

lemma paragraph_sentences_closed:
  assumes g: "g \<in> set (paragraph_sentences lower t)"
  shows "closed_group lower g"
proof (cases "t = [] \<or> length (strip t) < 30")
  case True
  then have "paragraph_sentences lower t = []" by (simp add: paragraph_sentences_def)
  then show ?thesis using g by simp
next
  case False
  obtain gs cur where r: "group_loop lower [] [] (split_sentences (remove_marker t)) = (gs, cur)"
    by (cases "group_loop lower [] [] (split_sentences (remove_marker t))") auto
  have "(\<forall>g\<in>set (fst (group_loop lower [] [] (split_sentences (remove_marker t)))).
            closed_group lower g) \<and>
        open_buffer lower (snd (group_loop lower [] [] (split_sentences (remove_marker t))))"
    by (rule group_loop_invariant) (simp_all add: open_buffer_def)
  then have inv: "\<forall>g\<in>set gs. closed_group lower g" "open_buffer lower cur"
    unfolding r by simp_all
  have ps: "paragraph_sentences lower t = (if cur \<noteq> [] then gs @ [cur] else gs)"
    using False r by (simp add: paragraph_sentences_def)
  show ?thesis
  proof (cases "cur = []")
    case True
    then show ?thesis using g ps inv(1) by simp
  next
    case ne: False
    then have "g \<in> set gs \<or> g = cur" using g ps by auto
    then show ?thesis using inv(1) open_buffer_closed [OF inv(2) ne] by blast
  qed
qed

lemma paragraph_sentences_concat:
  "concat (paragraph_sentences lower t) =
     (if t = [] \<or> length (strip t) < 30 then []
      else filter (\<lambda>s. strip s \<noteq> []) (split_sentences (remove_marker t)))"
proof (cases "t = [] \<or> length (strip t) < 30")
  case True
  then show ?thesis by (simp add: paragraph_sentences_def)
next
  case False
  obtain gs cur where r: "group_loop lower [] [] (split_sentences (remove_marker t)) = (gs, cur)"
    by (cases "group_loop lower [] [] (split_sentences (remove_marker t))") auto
  have "concat gs @ cur = filter (\<lambda>s. strip s \<noteq> []) (split_sentences (remove_marker t))"
    using group_loop_concat [of lower "[]" "[]" "split_sentences (remove_marker t)"]
    unfolding r by simp
  moreover have "paragraph_sentences lower t = (if cur \<noteq> [] then gs @ [cur] else gs)"
    using False r by (simp add: paragraph_sentences_def)
  ultimately show ?thesis using False by (cases "cur = []") simp_all
qed

lemma join_not_Nil: "x \<noteq> [] \<Longrightarrow> join s (x # xs) \<noteq> []"
  by (cases xs) simp_all

lemma strip_Nil: "strip [] = []"
  by (simp add: strip_def)

lemmas paragraph_eval =
  paragraph_sentences_def split_sentences_def is_space_def is_terminator_def strip_def
  has_keyword_def paragraph_keywords_def marker_def sublist_Cons_right

text \<open>
  C7: the returned paragraphs are the groups of \<open>paragraph_sentences\<close>, each joined
  by one space; the groups hold, in order, the sentences of the text that are not blank;
  every group has at least 1 and at most 5 sentences, and every paragraph is a
  non-empty string.
\<close>

theorem paragraphs_one_to_five_sentences:
  "split_into_paragraphs lower t = map (join [0x20]) (paragraph_sentences lower t) \<and>
   concat (paragraph_sentences lower t) =
     (if t = [] \<or> length (strip t) < 30 then []
      else filter (\<lambda>s. strip s \<noteq> []) (split_sentences (remove_marker t))) \<and>
   (\<forall>g\<in>set (paragraph_sentences lower t).
      1 \<le> length g \<and> length g \<le> 5 \<and> (\<forall>s\<in>set g. strip s \<noteq> [])) \<and>
   (\<forall>p\<in>set (split_into_paragraphs lower t). p \<noteq> [])"
proof (intro conjI)
  show "split_into_paragraphs lower t = map (join [0x20]) (paragraph_sentences lower t)"
    by (rule split_into_paragraphs_groups)
  show "concat (paragraph_sentences lower t) =
     (if t = [] \<or> length (strip t) < 30 then []
      else filter (\<lambda>s. strip s \<noteq> []) (split_sentences (remove_marker t)))"
    by (rule paragraph_sentences_concat)
  show g: "\<forall>g\<in>set (paragraph_sentences lower t).
      1 \<le> length g \<and> length g \<le> 5 \<and> (\<forall>s\<in>set g. strip s \<noteq> [])"
    using paragraph_sentences_closed [of _ lower t] unfolding closed_group_def by blast
  show "\<forall>p\<in>set (split_into_paragraphs lower t). p \<noteq> []"
  proof
    fix p assume "p \<in> set (split_into_paragraphs lower t)"
    then obtain g where g': "g \<in> set (paragraph_sentences lower t)" and p: "p = join [0x20] g"
      unfolding split_into_paragraphs_groups by auto
    from g g' have "1 \<le> length g" "\<forall>s\<in>set g. strip s \<noteq> []" by blast+
    then obtain x xs where "g = x # xs" "strip x \<noteq> []" by (cases g) auto
    then have "g = x # xs" "x \<noteq> []" using strip_Nil by auto
    then show "p \<noteq> []" using p join_not_Nil by simp
  qed
qed

text \<open>
  C7, witness: a text of nine sentences, the second with a keyword, gives groups of 2, 5
  and 2 sentences.
\<close>

theorem paragraphs_one_to_five_sentences_witness:
  "paragraph_sentences (\<lambda>s. s) nine_sentences = nine_sentences_groups \<and>
   list_all (\<lambda>g. 1 \<le> length g \<and> length g \<le> 5 \<and> list_all (\<lambda>s. strip s \<noteq> []) g)
     (paragraph_sentences (\<lambda>s. s) nine_sentences) \<and>
   list_all (\<lambda>p. p \<noteq> []) (split_into_paragraphs (\<lambda>s. s) nine_sentences)"
proof -
  have e: "paragraph_sentences (\<lambda>s. s) nine_sentences = nine_sentences_groups"
    by (simp add: paragraph_eval)
  show ?thesis
    using e paragraphs_one_to_five_sentences [of "\<lambda>s. s" nine_sentences]
    unfolding list_all_iff by blast
qed

text \<open>
  C8: when a sentence that enters the buffer contains a keyword, the loop closes the
  paragraph with it at once, whatever the size of the buffer; so in every returned
  paragraph a sentence with a keyword is the last one.
\<close>

theorem keyword_sentence_closes_paragraph:
  "(strip s \<noteq> [] \<longrightarrow> has_keyword lower s \<longrightarrow>
      paragraph_loop lower ps cur (s # ss) =
        paragraph_loop lower (ps @ [join [0x20] (cur @ [s])]) [] ss) \<and>
   split_into_paragraphs lower t = map (join [0x20]) (paragraph_sentences lower t) \<and>
   (\<forall>g\<in>set (paragraph_sentences lower t).
      \<forall>i<length g. has_keyword lower (g ! i) \<longrightarrow> i = length g - 1)"
proof (intro conjI)
  show "strip s \<noteq> [] \<longrightarrow> has_keyword lower s \<longrightarrow>
      paragraph_loop lower ps cur (s # ss) =
        paragraph_loop lower (ps @ [join [0x20] (cur @ [s])]) [] ss"
    by simp
  show "split_into_paragraphs lower t = map (join [0x20]) (paragraph_sentences lower t)"
    by (rule split_into_paragraphs_groups)
  show "\<forall>g\<in>set (paragraph_sentences lower t).
      \<forall>i<length g. has_keyword lower (g ! i) \<longrightarrow> i = length g - 1"
  proof (intro ballI allI impI)
    fix g i
    assume g: "g \<in> set (paragraph_sentences lower t)" and i: "i < length g"
      and k: "has_keyword lower (g ! i)"
    have nk: "\<forall>s\<in>set (butlast g). \<not> has_keyword lower s"
      using paragraph_sentences_closed [OF g] by (simp add: closed_group_def)
    show "i = length g - 1"
    proof (rule ccontr)
      assume "i \<noteq> length g - 1"
      then have l: "i < length (butlast g)" using i by simp
      then have "butlast g ! i \<in> set (butlast g)" by (rule nth_mem)
      moreover have "butlast g ! i = g ! i" using l by (rule nth_butlast)
      ultimately show False using nk k by simp
    qed
  qed
qed

text \<open>
  C8, witness: the loop on the keyword sentence with one sentence in the buffer, and the
  nine-sentence text, whose first paragraph ends with the keyword sentence.
\<close>

theorem keyword_sentence_closes_paragraph_witness:
  "strip keyword_sentence \<noteq> [] \<and>
   has_keyword (\<lambda>s. s) keyword_sentence \<and>
   paragraph_loop (\<lambda>s. s) [] [[0x41, 0x61, 0x2E]] [keyword_sentence] =
     paragraph_loop (\<lambda>s. s) ([] @ [join [0x20] ([[0x41, 0x61, 0x2E]] @ [keyword_sentence])]) [] [] \<and>
   paragraph_sentences (\<lambda>s. s) nine_sentences = nine_sentences_groups \<and>
   list_all (\<lambda>g. \<forall>i<length g. has_keyword (\<lambda>s. s) (g ! i) \<longrightarrow> i = length g - 1)
     (paragraph_sentences (\<lambda>s. s) nine_sentences)"
proof -
  have e: "paragraph_sentences (\<lambda>s. s) nine_sentences = nine_sentences_groups"
    by (simp add: paragraph_eval)
  have k: "has_keyword (\<lambda>s. s) keyword_sentence"
    by (simp add: has_keyword_def paragraph_keywords_def sublist_Cons_right)
  have n: "strip keyword_sentence \<noteq> []"
    by (simp add: strip_def is_space_def)
  show ?thesis
    using e k n
      keyword_sentence_closes_paragraph
        [of keyword_sentence "\<lambda>s. s" "[]" "[[0x41, 0x61, 0x2E]]" "[]" nine_sentences]
    unfolding list_all_iff by blast
qed

section \<open>The time format on doubles\<close>

lemma bitlen_eq: "2 ^ k \<le> n \<Longrightarrow> n < 2 * 2 ^ k \<Longrightarrow> bitlen n = Suc k"
proof -
  assume a: "2 ^ k \<le> n" and b: "n < 2 * 2 ^ k"
  from a have "k < bitlen n" by (rule bitlen_gt)
  moreover from b have "n < 2 ^ Suc k" by simp
  then have "bitlen n \<le> Suc k" by (rule bitlen_le)
  ultimately show ?thesis by simp
qed


lemma bitlen_0: "bitlen 0 = 0"
  by (simp add: bitlen.simps)

lemma bitlen_pos: "0 < n \<Longrightarrow> 0 < bitlen n"
  by (subst bitlen.simps) simp

lemma bitlen_double: "0 < n \<Longrightarrow> bitlen (2 * n) = Suc (bitlen n)"
  by (subst bitlen.simps) simp

lemma bitlen_mult_pow: "0 < n \<Longrightarrow> bitlen (n * 2 ^ k) = bitlen n + k"
proof (induction k)
  case 0
  show ?case by simp
next
  case (Suc k)
  have e: "n * 2 ^ Suc k = 2 * (n * 2 ^ k)" by simp
  have "0 < n * 2 ^ k" using Suc.prems by simp
  then have b: "bitlen (2 * (n * 2 ^ k)) = Suc (bitlen (n * 2 ^ k))" by (rule bitlen_double)
  show ?case unfolding e b using Suc.IH [OF Suc.prems] by simp
qed

lemma round53_scale: "round53 (a * 2 ^ k) = round53 a * 2 ^ k"
proof (cases "a = 0")
  case True
  then show ?thesis by (simp add: round53_def bitlen_0)
next
  case False
  then have apos: "0 < a" by simp
  have bl: "bitlen (a * 2 ^ k) = bitlen a + k" using apos by (rule bitlen_mult_pow)
  show ?thesis
  proof (cases "bitlen a \<le> 53")
    case small: True
    then have ra: "round53 a = a" by (simp add: round53_def)
    show ?thesis
    proof (cases "bitlen a + k \<le> 53")
      case True
      then show ?thesis using ra bl by (simp add: round53_def)
    next
      case False
      define d where "d = bitlen a + k - 53"
      have dk: "d \<le> k" "0 < d" using small False by (simp_all add: d_def)
      have split: "a * 2 ^ k = (a * 2 ^ (k - d)) * 2 ^ d"
        using dk(1) by (simp add: power_add [symmetric])
      have q: "(a * 2 ^ k) div 2 ^ d = a * 2 ^ (k - d)" unfolding split by simp
      have r: "(a * 2 ^ k) mod 2 ^ d = 0" unfolding split by simp
      have h: "(0::nat) < 2 ^ (d - 1)" by simp
      have "round53 (a * 2 ^ k) = (a * 2 ^ (k - d)) * 2 ^ d"
        using False h by (simp add: round53_def bl Let_def d_def [symmetric] q r)
      also have "\<dots> = a * 2 ^ k" by (rule split [symmetric])
      finally show ?thesis by (simp only: ra)
    qed
  next
    case big: False
    define d where "d = bitlen a - 53"
    have dpos: "0 < d" using big by (simp add: d_def)
    have d': "bitlen a + k - 53 = d + k" using big by (simp add: d_def)
    have pw: "(2::nat) ^ (d + k) = 2 ^ d * 2 ^ k" by (simp add: power_add)
    have hw: "(2::nat) ^ (d + k - 1) = 2 ^ (d - 1) * 2 ^ k"
      using dpos by (simp add: power_add [symmetric])
    have q: "(a * 2 ^ k) div 2 ^ (d + k) = a div 2 ^ d" unfolding pw by simp
    have r: "(a * 2 ^ k) mod 2 ^ (d + k) = (a mod 2 ^ d) * 2 ^ k" unfolding pw by simp
    have c1: "2 ^ (d + k - 1) < (a mod 2 ^ d) * 2 ^ k \<longleftrightarrow> 2 ^ (d - 1) < a mod 2 ^ d"
      unfolding hw by simp
    have c2: "(a mod 2 ^ d) * 2 ^ k = 2 ^ (d + k - 1) \<longleftrightarrow> a mod 2 ^ d = 2 ^ (d - 1)"
      unfolding hw by simp
    have nb: "\<not> bitlen a + k \<le> 53" using big by simp
    have "round53 (a * 2 ^ k) =
        (if 2 ^ (d - 1) < a mod 2 ^ d \<or> (a mod 2 ^ d = 2 ^ (d - 1) \<and> odd (a div 2 ^ d))
         then a div 2 ^ d + 1 else a div 2 ^ d) * 2 ^ (d + k)"
      unfolding round53_def Let_def by (simp only: bl d' nb if_False q r c1 c2)
    moreover have "round53 a =
        (if 2 ^ (d - 1) < a mod 2 ^ d \<or> (a mod 2 ^ d = 2 ^ (d - 1) \<and> odd (a div 2 ^ d))
         then a div 2 ^ d + 1 else a div 2 ^ d) * 2 ^ d"
      unfolding round53_def Let_def by (simp only: big if_False d_def)
    ultimately show ?thesis by (simp add: pw)
  qed
qed

lemma round53_exact: "bitlen a \<le> 53 \<Longrightarrow> round53 (a * 2 ^ k) = a * 2 ^ k"
  by (simp add: round53_scale) (simp add: round53_def)

lemma round53_div_mult:
  assumes "0 < w"
  shows "round53_div (x * w) w = round53 x"
proof (cases "bitlen x \<le> 53")
  case True
  then have d: "bitlen x - 53 = 0" by simp
  show ?thesis using True assms by (simp add: round53_div_def round53_def Let_def d)
next
  case False
  define d where "d = bitlen x - 53"
  have dpos: "0 < d" using False by (simp add: d_def)
  have hh: "(2::nat) ^ d = 2 * 2 ^ (d - 1)" using dpos by (cases d) simp_all
  have q: "(x * w) div (w * 2 ^ d) = x div 2 ^ d" using assms by simp
  have r: "(x * w) mod (w * 2 ^ d) = (x mod 2 ^ d) * w"
    using mult_mod_right [of w x "2 ^ d"] by (simp add: mult.commute)
  have c1: "2 * ((x mod 2 ^ d) * w) > w * 2 ^ d \<longleftrightarrow> x mod 2 ^ d > 2 ^ (d - 1)"
    using assms by (subst hh) simp
  have c2: "2 * ((x mod 2 ^ d) * w) = w * 2 ^ d \<longleftrightarrow> x mod 2 ^ d = 2 ^ (d - 1)"
    using assms by (subst hh) auto
  have "round53_div (x * w) w =
      (if x mod 2 ^ d > 2 ^ (d - 1) \<or> (x mod 2 ^ d = 2 ^ (d - 1) \<and> odd (x div 2 ^ d))
       then x div 2 ^ d + 1 else x div 2 ^ d) * 2 ^ d"
    using assms unfolding round53_div_def Let_def
    by (simp only: nonzero_mult_div_cancel_right d_def [symmetric] q r c1 c2)
  moreover have "round53 x =
      (if x mod 2 ^ d > 2 ^ (d - 1) \<or> (x mod 2 ^ d = 2 ^ (d - 1) \<and> odd (x div 2 ^ d))
       then x div 2 ^ d + 1 else x div 2 ^ d) * 2 ^ d"
    using False by (simp add: round53_def Let_def d_def)
  ultimately show ?thesis by simp
qed

lemma float_floordiv_exact:
  assumes "0 < w" "v < 2 ^ 53 * one_double"
  shows "float_floordiv v w = (v div (w * one_double)) * one_double"
proof -
  define k :: nat where "k = 1074"
  have S: "one_double = 2 ^ k" by (simp add: one_double_def k_def)
  define q where "q = v div (w * 2 ^ k)"
  have v: "v - v mod (w * 2 ^ k) = (q * w) * 2 ^ k"
    by (simp add: q_def minus_mod_eq_div_mult ac_simps)
  have "(q * w) * 2 ^ k \<le> v" using v [symmetric] by simp
  moreover have "v < 2 ^ 53 * 2 ^ k" using assms(2) unfolding S .
  ultimately have "(q * w) * 2 ^ k < 2 ^ 53 * 2 ^ k" by (rule le_less_trans)
  then have qw: "q * w < 2 ^ 53" unfolding mult_less_cancel2 by simp
  then have b1: "bitlen (q * w) \<le> 53" by (rule bitlen_le)
  have "q * 1 \<le> q * w" using assms(1) by (intro mult_le_mono2) simp
  then have "q \<le> q * w" by simp
  then have "q < 2 ^ 53" using qw by (rule le_less_trans)
  then have b2: "bitlen q \<le> 53" by (rule bitlen_le)
  have r1: "round53 ((q * w) * 2 ^ k) = (q * 2 ^ k) * w"
    using round53_exact [OF b1, of k] by (simp add: ac_simps)
  have r2: "round53_div ((q * 2 ^ k) * w) w = q * 2 ^ k"
    using round53_div_mult [OF assms(1), of "q * 2 ^ k"] round53_exact [OF b2, of k] by simp
  have dv: "round53_div (round53 (v - v mod (w * 2 ^ k))) w = q * 2 ^ k"
    unfolding v r1 r2 ..
  have "float_floordiv v w = q * 2 ^ k"
    unfolding float_floordiv_def Let_def S dv by simp
  then show ?thesis by (simp add: S q_def)
qed

lemma div_scaled: "(v mod (k * s)) div s = (v div s) mod (k::nat)"
proof -
  have "v mod (s * k) = s * ((v div s) mod k) + v mod s" by (rule mod_mult2_eq)
  then show ?thesis
    by (cases "s = 0") (simp_all add: mult.commute)
qed

lemma format_time_exact:
  assumes "v < 2 ^ 53 * one_double"
  shows "format_time v =
    pad2 ((v div one_double) div 3600) @ '':'' @
    pad2 (((v div one_double) mod 3600) div 60) @ '':'' @
    pad2 ((v div one_double) mod 60)"
proof -
  have pos: "0 < one_double" by (simp add: one_double_def)
  have h: "py_int (float_floordiv v 3600) = (v div one_double) div 3600"
    using pos by (simp add: py_int_def float_floordiv_exact [OF _ assms] div_mult2_eq mult.commute)
  have "float_mod v 3600 \<le> v" by (simp add: float_mod_def)
  then have lt: "float_mod v 3600 < 2 ^ 53 * one_double" using assms by simp
  have "py_int (float_floordiv (float_mod v 3600) 60) = (float_mod v 3600) div (60 * one_double)"
    using pos by (simp add: py_int_def float_floordiv_exact [OF _ lt])
  also have "\<dots> = ((v mod (3600 * one_double)) div one_double) div 60"
    by (simp add: float_mod_def div_mult2_eq mult.commute)
  also have "\<dots> = ((v div one_double) mod 3600) div 60"
    by (simp only: div_scaled)
  finally have m: "py_int (float_floordiv (float_mod v 3600) 60) =
      ((v div one_double) mod 3600) div 60" .
  have s: "py_int (float_mod v 60) = (v div one_double) mod 60"
    by (simp only: py_int_def float_mod_def div_scaled)
  show ?thesis by (simp only: format_time_def Let_def h m s)
qed

lemma dec_value_snoc: "dec_value (f @ [c]) = 10 * dec_value f + (of_char c - 48)"
  by (simp add: dec_value_def)

lemma of_char_digit: "d < 10 \<Longrightarrow> (of_char (''0123456789'' ! d) :: nat) = 48 + d"
proof -
  assume "d < 10"
  then have "d = 0 \<or> d = 1 \<or> d = 2 \<or> d = 3 \<or> d = 4 \<or> d = 5 \<or> d = 6 \<or> d = 7 \<or>
      d = 8 \<or> d = 9" by arith
  then show ?thesis by (elim disjE) simp_all
qed

lemma dec_value_dec: "dec_value (dec n) = n"
proof (induction n rule: dec.induct)
  case (1 n)
  show ?case
  proof (cases "n < 10")
    case True
    then have "dec n = [''0123456789'' ! n]" by (subst dec.simps) simp
    then show ?thesis using True by (simp add: dec_value_def of_char_digit)
  next
    case False
    then have e: "dec n = dec (n div 10) @ [''0123456789'' ! (n mod 10)]" by (subst dec.simps) simp
    have "(of_char (''0123456789'' ! (n mod 10)) :: nat) = 48 + n mod 10"
      by (rule of_char_digit) simp
    then show ?thesis unfolding e dec_value_snoc using 1 [OF False] by simp
  qed
qed

lemma dec_digits: "list_all is_digit (dec n)"
proof (induction n rule: dec.induct)
  case (1 n)
  show ?case
  proof (cases "n < 10")
    case True
    then have "dec n = [''0123456789'' ! n]" by (subst dec.simps) simp
    then show ?thesis using True by (simp add: is_digit_def of_char_digit)
  next
    case False
    then have e: "dec n = dec (n div 10) @ [''0123456789'' ! (n mod 10)]" by (subst dec.simps) simp
    have "(of_char (''0123456789'' ! (n mod 10)) :: nat) = 48 + n mod 10"
      by (rule of_char_digit) simp
    then have "is_digit (''0123456789'' ! (n mod 10))" by (simp add: is_digit_def)
    then show ?thesis unfolding e using 1 [OF False] by simp
  qed
qed

lemma dec_not_Nil: "dec n \<noteq> []"
  by (subst dec.simps) simp

lemma dec_small: "n < 10 \<Longrightarrow> dec n = [''0123456789'' ! n]"
  by (subst dec.simps) simp

lemma dec_large: "10 \<le> n \<Longrightarrow> 2 \<le> length (dec n)"
proof -
  assume "10 \<le> n"
  then have "dec n = dec (n div 10) @ [''0123456789'' ! (n mod 10)]" by (subst dec.simps) simp
  moreover have "1 \<le> length (dec (n div 10))"
    using dec_not_Nil [of "n div 10"] by (cases "dec (n div 10)") simp_all
  ultimately show ?thesis by simp
qed

lemma dec_hd: "0 < n \<Longrightarrow> hd (dec n) \<noteq> CHR ''0''"
proof (induction n rule: dec.induct)
  case (1 n)
  show ?case
  proof (cases "n < 10")
    case True
    have "''0123456789'' ! n \<noteq> CHR ''0''"
    proof
      assume a: "''0123456789'' ! n = CHR ''0''"
      have "(of_char (''0123456789'' ! n) :: nat) = 48 + n" using True by (rule of_char_digit)
      moreover have "(of_char (''0123456789'' ! n) :: nat) = 48" unfolding a by simp
      ultimately show False using 1(2) by linarith
    qed
    then show ?thesis using True by (simp add: dec_small)
  next
    case False
    then have e: "dec n = dec (n div 10) @ [''0123456789'' ! (n mod 10)]" by (subst dec.simps) simp
    have "0 < n div 10" using False by simp
    then have "hd (dec (n div 10)) \<noteq> CHR ''0''" using 1(1) [OF False] by simp
    then show ?thesis unfolding e using dec_not_Nil [of "n div 10"] by simp
  qed
qed

lemma pad2_field: "time_field (pad2 n) \<and> dec_value (pad2 n) = n"
proof (cases "n < 10")
  case True
  then have p: "pad2 n = [CHR ''0'', ''0123456789'' ! n]"
    by (simp add: pad2_def dec_small)
  show ?thesis unfolding p using True
    by (simp add: time_field_def is_digit_def dec_value_def of_char_digit)
next
  case False
  then have l: "2 \<le> length (dec n)" by (simp add: dec_large)
  then have p: "pad2 n = dec n" by (simp add: pad2_def)
  have "hd (dec n) \<noteq> CHR ''0''" using False by (intro dec_hd) simp
  then show ?thesis unfolding p using l by (simp add: time_field_def dec_digits dec_value_dec)
qed

text \<open>
  C10, amended: for every double \<open>s\<close> that is not negative and is below \<open>2^53\<close>, the
  result has the form \<open>HH:MM:SS\<close>; each field has at least two decimal digits, padded
  with a zero only up to two; the minutes and the seconds are at most 59; and
  \<open>HH * 3600 + MM * 60 + SS\<close> is the whole part of \<open>s\<close>.
\<close>

theorem format_time_below_2_53:
  assumes "s < 2 ^ 53 * one_double"
  shows "\<exists>hh mm ss.
    format_time s = hh @ '':'' @ mm @ '':'' @ ss \<and>
    time_field hh \<and> time_field mm \<and> time_field ss \<and>
    dec_value mm \<le> 59 \<and> dec_value ss \<le> 59 \<and>
    dec_value hh * 3600 + dec_value mm * 60 + dec_value ss = s div one_double"
proof -
  define n where "n = s div one_double"
  have f: "format_time s =
      pad2 (n div 3600) @ '':'' @ pad2 ((n mod 3600) div 60) @ '':'' @ pad2 (n mod 60)"
    unfolding n_def using assms by (rule format_time_exact)
  have "n mod 3600 < 60 * 60" by simp
  then have "(n mod 3600) div 60 < 60" by (rule less_mult_imp_div_less)
  then have m: "(n mod 3600) div 60 \<le> 59" by simp
  have "n mod 60 < 60" by simp
  then have c: "n mod 60 \<le> 59" by simp
  have "(n mod 3600) mod 60 = n mod 60" by (rule mod_mod_cancel) simp
  then have b: "((n mod 3600) div 60) * 60 + n mod 60 = n mod 3600"
    using div_mult_mod_eq [of "n mod 3600" 60] by simp
  have a: "(n div 3600) * 3600 + n mod 3600 = n" by (rule div_mult_mod_eq)
  have sum: "(n div 3600) * 3600 + ((n mod 3600) div 60) * 60 + n mod 60 = n"
    by (simp only: add.assoc b a)
  show ?thesis
  proof (intro exI conjI)
    show "format_time s =
      pad2 (n div 3600) @ '':'' @ pad2 ((n mod 3600) div 60) @ '':'' @ pad2 (n mod 60)"
      by (rule f)
    show "time_field (pad2 (n div 3600))" "time_field (pad2 ((n mod 3600) div 60))"
      "time_field (pad2 (n mod 60))"
      using pad2_field by blast+
    show "dec_value (pad2 ((n mod 3600) div 60)) \<le> 59" using pad2_field m by simp
    show "dec_value (pad2 (n mod 60)) \<le> 59" using pad2_field c by simp
    show "dec_value (pad2 (n div 3600)) * 3600 + dec_value (pad2 ((n mod 3600) div 60)) * 60 +
        dec_value (pad2 (n mod 60)) = s div one_double"
      using pad2_field sum by (simp add: n_def)
  qed
qed

text \<open>C10, witness: the amended statement at 3725.5 seconds, which gives \<open>01:02:05\<close>.\<close>

theorem format_time_below_2_53_witness:
  "7451 * 2 ^ 1073 < 2 ^ 53 * one_double \<and>
   format_time (7451 * 2 ^ 1073) = ''01:02:05'' \<and>
   (\<exists>hh mm ss.
      format_time (7451 * 2 ^ 1073) = hh @ '':'' @ mm @ '':'' @ ss \<and>
      time_field hh \<and> time_field mm \<and> time_field ss \<and>
      dec_value mm \<le> 59 \<and> dec_value ss \<le> 59 \<and>
      dec_value hh * 3600 + dec_value mm * 60 + dec_value ss = (7451 * 2 ^ 1073) div one_double)"
proof -
  have h: "7451 * 2 ^ 1073 < 2 ^ 53 * one_double" by (simp add: one_double_def)
  have n: "(7451 * 2 ^ 1073) div one_double = 3725" by (simp add: one_double_def)
  have e: "format_time (7451 * 2 ^ 1073) = ''01:02:05''"
    unfolding format_time_exact [OF h] n by (simp add: pad2_def dec.simps)
  show ?thesis using h e format_time_below_2_53 [OF h] by blast
qed

lemma bitlen_div_scale:
  assumes "0 < w" "0 < a div w"
  shows "bitlen ((a * 2 ^ k) div w) = bitlen (a div w) + k"
proof -
  define j where "j = bitlen (a div w) - 1"
  have "0 < bitlen (a div w)" using assms(2) by (rule bitlen_pos)
  then have L: "bitlen (a div w) = Suc j" by (simp add: j_def)
  have lo: "2 ^ j \<le> a div w" unfolding j_def using assms(2) by (rule two_bitlen_le)
  have "a div w < 2 ^ Suc j" using lt_two_bitlen [of "a div w"] unfolding L .
  then have hi: "a < 2 ^ Suc j * w" using assms(1) by (simp add: div_less_iff_less_mult)
  have "2 ^ j * w \<le> a" using lo assms(1) by (simp add: less_eq_div_iff_mult_less_eq)
  then have "(2 ^ j * w) * 2 ^ k \<le> a * 2 ^ k" by (rule mult_le_mono1)
  then have "2 ^ (j + k) * w \<le> a * 2 ^ k" by (simp add: power_add ac_simps)
  then have lo': "2 ^ (j + k) \<le> (a * 2 ^ k) div w"
    using assms(1) by (simp add: less_eq_div_iff_mult_less_eq)
  have "a * 2 ^ k < (2 ^ Suc j * w) * 2 ^ k" using hi by simp
  then have "a * 2 ^ k < (2 * 2 ^ (j + k)) * w" by (simp add: power_add ac_simps)
  then have hi': "(a * 2 ^ k) div w < 2 * 2 ^ (j + k)"
    using assms(1) by (simp add: div_less_iff_less_mult)
  have "bitlen ((a * 2 ^ k) div w) = Suc (j + k)" using lo' hi' by (rule bitlen_eq)
  then show ?thesis using L by simp
qed

lemma round53_div_scale:
  assumes "0 < w" "53 \<le> bitlen (a div w)"
  shows "round53_div (a * 2 ^ k) w = round53_div a w * 2 ^ k"
proof -
  define d where "d = bitlen (a div w) - 53"
  have pos: "0 < a div w"
  proof (rule ccontr)
    assume "\<not> 0 < a div w"
    then have "bitlen (a div w) = 0" by (simp add: bitlen_0)
    then show False using assms(2) by simp
  qed
  have bl: "bitlen ((a * 2 ^ k) div w) = bitlen (a div w) + k"
    using assms(1) pos by (rule bitlen_div_scale)
  have d': "bitlen (a div w) + k - 53 = d + k" using assms(2) by (simp add: d_def)
  have pw: "w * 2 ^ (d + k) = (w * 2 ^ d) * 2 ^ k" by (simp add: power_add)
  have q: "(a * 2 ^ k) div (w * 2 ^ (d + k)) = a div (w * 2 ^ d)" unfolding pw by simp
  have r: "(a * 2 ^ k) mod (w * 2 ^ (d + k)) = (a mod (w * 2 ^ d)) * 2 ^ k" unfolding pw by simp
  have c1: "w * 2 ^ (d + k) < 2 * ((a mod (w * 2 ^ d)) * 2 ^ k) \<longleftrightarrow>
      w * 2 ^ d < 2 * (a mod (w * 2 ^ d))"
    unfolding pw mult.assoc [symmetric] by simp
  have c2: "2 * ((a mod (w * 2 ^ d)) * 2 ^ k) = w * 2 ^ (d + k) \<longleftrightarrow>
      2 * (a mod (w * 2 ^ d)) = w * 2 ^ d"
    unfolding pw mult.assoc [symmetric] by simp
  have "round53_div (a * 2 ^ k) w =
      (if w * 2 ^ d < 2 * (a mod (w * 2 ^ d)) \<or>
          (2 * (a mod (w * 2 ^ d)) = w * 2 ^ d \<and> odd (a div (w * 2 ^ d)))
       then a div (w * 2 ^ d) + 1 else a div (w * 2 ^ d)) * 2 ^ (d + k)"
    unfolding round53_div_def Let_def by (simp only: bl d' q r c1 c2)
  moreover have "round53_div a w =
      (if w * 2 ^ d < 2 * (a mod (w * 2 ^ d)) \<or>
          (2 * (a mod (w * 2 ^ d)) = w * 2 ^ d \<and> odd (a div (w * 2 ^ d)))
       then a div (w * 2 ^ d) + 1 else a div (w * 2 ^ d)) * 2 ^ d"
    unfolding round53_div_def Let_def by (simp only: d_def)
  ultimately show ?thesis by (simp add: power_add)
qed

lemma one_double_pos: "0 < one_double"
  by (simp add: one_double_def)

lemma floordiv_large:
  "float_floordiv (15017122342749313024 * one_double) 3600 = 4171422872985919 * one_double"
proof -
  define j :: nat where "j = 1073"
  have S: "one_double = 2 * 2 ^ j" by (simp add: one_double_def j_def)
  have v: "15017122342749313024 * (2 * 2 ^ j) = (30034244685498626048 :: nat) * 2 ^ j" by simp
  have w: "3600 * (2 * 2 ^ j) = (7200 :: nat) * 2 ^ j" by simp
  have md: "(30034244685498626048 * 2 ^ j) mod (7200 * 2 ^ j) = (2048 :: nat) * 2 ^ j" by simp
  have x: "30034244685498626048 * 2 ^ j - 2048 * 2 ^ j = (30034244685498624000 :: nat) * 2 ^ j"
    by (simp add: diff_mult_distrib [symmetric])
  have "bitlen 30034244685498624000 = Suc 64" by (rule bitlen_eq) simp_all
  then have b1: "bitlen 30034244685498624000 = 65" by simp
  have r1: "round53 30034244685498624000 = 30034244685498621952"
    by (simp add: round53_def b1 Let_def)
  have r1s: "round53 (30034244685498624000 * 2 ^ j) = 30034244685498621952 * 2 ^ j"
    by (simp only: round53_scale r1)
  have "bitlen 8342845745971839 = Suc 52" by (rule bitlen_eq) simp_all
  then have b2: "bitlen 8342845745971839 = 53" by simp
  have dvu: "round53_div 30034244685498621952 3600 = 8342845745971839"
    by (simp add: round53_div_def b2 Let_def)
  have "53 \<le> bitlen (30034244685498621952 div 3600)" by (simp add: b2)
  then have dvs: "round53_div (30034244685498621952 * 2 ^ j) 3600 = 8342845745971839 * 2 ^ j"
    using round53_div_scale [of 3600 30034244685498621952 j] by (simp add: dvu)
  have fl: "(8342845745971839 * 2 ^ j) div (2 * 2 ^ j) = (4171422872985919 :: nat)" by simp
  have ne: "8342845745971839 * 2 ^ j \<noteq> (0::nat)" by simp
  have half: "8342845745971839 * 2 ^ j - 4171422872985919 * (2 * 2 ^ j) = (2 :: nat) ^ j"
  proof -
    have "4171422872985919 * (2 * 2 ^ j) = (8342845745971838 :: nat) * 2 ^ j" by simp
    then show ?thesis by (simp add: diff_mult_distrib [symmetric])
  qed
  show ?thesis
    unfolding float_floordiv_def Let_def S v w md x r1s dvs fl half
    using ne by simp
qed

text \<open>
  C10, as stated, fails. 15017122342749313024 is a double; the difference
  \<open>s - fmod(s, 3600)\<close> is rounded down by 1024, the quotient by 3600 is the double
  \<open>4171422872985919.5\<close>, and its floor is one less than the number of whole hours. The
  result is \<open>4171422872985919:17:04\<close>, whose fields add up to 3600 less than the whole
  part of the input.
\<close>

theorem format_time_large_counterexample:
  "round53 (15017122342749313024 * one_double) = 15017122342749313024 * one_double \<and>
   (15017122342749313024 * one_double) div one_double = 15017122342749313024 \<and>
   format_time (15017122342749313024 * one_double) = ''4171422872985919:17:04'' \<and>
   4171422872985919 * 3600 + 17 * 60 + 4 \<noteq> (15017122342749313024 :: nat)"
proof (intro conjI)
  have "bitlen 15017122342749313024 = Suc 63" by (rule bitlen_eq) simp_all
  then have b: "bitlen 15017122342749313024 = 64" by simp
  have "round53 15017122342749313024 = 15017122342749313024"
    by (simp add: round53_def b Let_def)
  then show "round53 (15017122342749313024 * one_double) = 15017122342749313024 * one_double"
    unfolding one_double_def by (simp only: round53_scale)
  show "(15017122342749313024 * one_double) div one_double = 15017122342749313024"
    using one_double_pos by simp
  have h: "py_int (float_floordiv (15017122342749313024 * one_double) 3600) = 4171422872985919"
    unfolding floordiv_large py_int_def using one_double_pos by simp
  have fm: "float_mod (15017122342749313024 * one_double) 3600 = 1024 * one_double"
    by (simp add: float_mod_def)
  have lt: "1024 * one_double < 2 ^ 53 * one_double" using one_double_pos by simp
  have m: "py_int (float_floordiv (float_mod (15017122342749313024 * one_double) 3600) 60) = 17"
    unfolding fm py_int_def using one_double_pos
    by (simp add: float_floordiv_exact [OF _ lt])
  have c: "py_int (float_mod (15017122342749313024 * one_double) 60) = 4"
    using one_double_pos by (simp add: py_int_def float_mod_def)
  show "format_time (15017122342749313024 * one_double) = ''4171422872985919:17:04''"
    unfolding format_time_def Let_def h m c by (simp add: pad2_def dec.simps)
  show "4171422872985919 * 3600 + 17 * 60 + 4 \<noteq> (15017122342749313024 :: nat)" by simp
qed

end
